theory Spec2Isabelle
  imports Main "HOL-Library.AList" "HOL-Library.Multiset" "HOL-Library.Sublist"
begin

section \<open>The worker service of Monikhao: sessions, agents, tool calls\<close>

text \<open>
  A shallow embedding of the state-aggregation core of \<^verbatim>\<open>scripts/worker-service.cjs\<close>:
  the session map, the agent lists, the tool-call records, the statistics, the pruner and
  the statistics part of the public state.

  Conventions of the model.
  \<^item> The module-level variables \<^verbatim>\<open>sessions\<close>, \<^verbatim>\<open>agentIdCounter\<close>, \<^verbatim>\<open>usedNames\<close> and
    \<^verbatim>\<open>carryOverStats\<close> are the fields of one record that every function takes and returns.
  \<^item> A JavaScript \<^verbatim>\<open>Map\<close> is an association list in insertion order: \<open>map_of\<close> is
    \<^verbatim>\<open>get\<close>, \<open>AList.update\<close> is \<^verbatim>\<open>set\<close> (an existing key keeps its place, a new
    key goes to the end), \<open>AList.delete\<close> is \<^verbatim>\<open>delete\<close>.
  \<^item> Objects held in the map are mutated in place by the source; the model takes the
    session out of the map, transforms it and stores it back under the same key.
  \<^item> \<^verbatim>\<open>Date.now()\<close> and \<^verbatim>\<open>Math.random()\<close> are inputs: one field of the record \<open>env\<close>
    for each call site.
  \<^item> A \<^verbatim>\<open>TypeError\<close> thrown by a helper is the value \<open>None\<close>; \<open>processEvent\<close>
    returns an outcome together with the state reached when the exception left it.
  \<^item> Counters are natural numbers, timestamps are integers (milliseconds), an absent
    (\<^verbatim>\<open>undefined\<close>) timestamp is \<open>None\<close>.
  \<^item> The identifier \<^verbatim>\<open>agent-N\<close> is the number \<open>N\<close>; the identifier
    \<^verbatim>\<open>tc-<Date.now()>-<random>\<close> is the pair of its two parts.
\<close>

subsection \<open>Values received from producers\<close>

text \<open>
  Payloads (\<^verbatim>\<open>tool_input\<close>, \<^verbatim>\<open>tool_response\<close>, \<^verbatim>\<open>model\<close>, \<^verbatim>\<open>message\<close>) are parsed JSON;
  \<open>JUndef\<close> stands for an absent field. Numbers are kept as integers: the code only
  tests them for being zero.
\<close>

datatype json =
    JUndef
  | JNull
  | JBool bool
  | JNum int
  | JStr string
  | JArr "json list"
  | JObj "(string \<times> json) list"

text \<open>JavaScript truthiness, as tested by \<^verbatim>\<open>if (x)\<close>, \<^verbatim>\<open>!x\<close> and \<^verbatim>\<open>x || y\<close>.\<close>

fun truthy :: "json \<Rightarrow> bool" where
  "truthy JUndef = False"
| "truthy JNull = False"
| "truthy (JBool b) = b"
| "truthy (JNum n) = (n \<noteq> 0)"
| "truthy (JStr s) = (s \<noteq> [])"
| "truthy (JArr xs) = True"
| "truthy (JObj kvs) = True"

text \<open>\<^verbatim>\<open>a || b\<close>\<close>

definition orElse :: "json \<Rightarrow> json \<Rightarrow> json" where
  "orElse a b = (if truthy a then a else b)"

text \<open>
  \<^verbatim>\<open>x?.k\<close> and \<^verbatim>\<open>x.k\<close> on a value that is not \<^verbatim>\<open>null\<close>: an own property of a parsed
  object, \<^verbatim>\<open>undefined\<close> otherwise (none of the keys the code reads is a built-in property
  of strings, numbers or arrays).
\<close>

fun getProp :: "json \<Rightarrow> string \<Rightarrow> json" where
  "getProp (JObj kvs) k = (case map_of kvs k of Some v \<Rightarrow> v | None \<Rightarrow> JUndef)"
| "getProp v k = JUndef"

text \<open>\<^verbatim>\<open>typeof x === 'object' && x !== null\<close>; such values are Map keys by reference.\<close>

fun isObject :: "json \<Rightarrow> bool" where
  "isObject (JArr xs) = True"
| "isObject (JObj kvs) = True"
| "isObject v = False"

text \<open>\<^verbatim>\<open>x.length\<close>\<close>

fun js_length :: "json \<Rightarrow> json" where
  "js_length (JStr s) = JNum (int (length s))"
| "js_length (JArr xs) = JNum (int (length xs))"
| "js_length (JObj kvs) = getProp (JObj kvs) ''length''"
| "js_length v = JUndef"

text \<open>
  Built-ins of the JavaScript engine that the model does not define are parameters:
  \<^item> \<open>toStr\<close>: \<^verbatim>\<open>String(v)\<close> and the coercion of a template literal, for a value that
    is not a string; \<open>None\<close> when the conversion throws (an object whose own
    \<^verbatim>\<open>toString\<close> property is not callable);
  \<^item> \<open>stringify\<close>: \<^verbatim>\<open>JSON.stringify(v)\<close> of a truthy parsed value;
  \<^item> \<open>inherited\<close>: the call \<^verbatim>\<open>cases[toolName]()\<close> for a tool name that is not an own key
    of \<^verbatim>\<open>cases\<close>: \<open>None\<close> when the lookup gives \<^verbatim>\<open>undefined\<close>, \<open>Some None\<close> when
    the inherited member is found and calling it throws (\<^verbatim>\<open>__proto__\<close>, \<^verbatim>\<open>valueOf\<close>),
    \<open>Some (Some v)\<close> when it returns \<open>v\<close> (\<^verbatim>\<open>toString\<close>).
\<close>

record js =
  toStr :: "json \<Rightarrow> string option"
  stringify :: "json \<Rightarrow> string"
  inherited :: "string \<Rightarrow> json option option"

definition js_String :: "js \<Rightarrow> json \<Rightarrow> string option" where
  "js_String p v = (case v of JStr s \<Rightarrow> Some s | _ \<Rightarrow> toStr p v)"

text \<open>\<^verbatim>\<open>String.prototype.toLowerCase\<close> on the letters A to Z.\<close>

definition lowerChar :: "char \<Rightarrow> char" where
  "lowerChar c =
     (let n = (of_char c :: nat) in if 65 \<le> n \<and> n \<le> 90 then char_of (n + 32) else c)"

definition toLowerCase :: "string \<Rightarrow> string" where
  "toLowerCase s = map lowerChar s"

text \<open>\<^verbatim>\<open>s.includes(t)\<close>\<close>

fun js_includes :: "string \<Rightarrow> string \<Rightarrow> bool" where
  "js_includes [] t = (t = [])"
| "js_includes (c # cs) t = (prefix t (c # cs) \<or> js_includes cs t)"

subsection \<open>Data model\<close>

datatype agentType = Main | Subagent
datatype agentStatus = AgentActive | AgentCompleted
datatype sessionStatus = SessionActive | SessionEnded
datatype callStatus = Executing | Completed | Error

type_synonym tcid = "int \<times> string"

record toolCall =
  tc_id :: tcid
  tool :: string
  inputSummary :: json
  outputSummary :: json
  tc_startedAt :: "int option"
  tc_completedAt :: "int option"
  tc_status :: callStatus

record agent =
  a_id :: nat
  a_name :: json
  color :: string
  shape :: string
  a_type :: agentType
  subagentType :: json
  a_model :: json
  parentId :: "nat option"
  a_sessionId :: string
  a_source :: string
  a_status :: agentStatus
  spawnedAt :: int
  a_completedAt :: "int option"
  toolCalls :: "toolCall list"
  toolCallCount :: nat
  lastResponse :: json

record sessionInfo =
  s_id :: string
  s_startedAt :: "int option"
  s_status :: sessionStatus
  s_endedAt :: "int option"
  s_source :: string
  s_model :: json

text \<open>The seven counters of \<^verbatim>\<open>stats\<close> and of \<^verbatim>\<open>carryOverStats\<close>.\<close>

record counters =
  c_toolCalls :: nat
  c_filesAccessed :: nat
  c_estimatedTokens :: nat
  c_linesAdded :: nat
  c_linesRemoved :: nat
  c_turns :: nat
  c_errors :: nat

record fileInfo =
  f_path :: json
  accessCount :: nat
  lastAccessed :: "int option"
  f_tool :: string

datatype timelineData =
    AgentSpawn json json "nat option"
  | ToolStart tcid string json
  | ToolEnd string json
  | AgentResponse json

record timelineEvent =
  tl_timestamp :: "int option"
  tl_agentId :: nat
  tl_data :: timelineData

text \<open>
  One value of the \<^verbatim>\<open>sessions\<close> map. \<open>stats\<close> holds the counters of \<^verbatim>\<open>ss.stats\<close> and
  \<open>statsStartedAt\<close> its field \<^verbatim>\<open>startedAt\<close>.
\<close>

record sessionState =
  session :: sessionInfo
  agents :: "agent list"
  timeline :: "timelineEvent list"
  files :: "(json \<times> fileInfo) list"
  stats :: counters
  statsStartedAt :: "int option"
  pendingToolCalls :: "(string \<times> tcid) list"
  lastActivity :: "int option"

record state =
  sessions :: "(string \<times> sessionState) list"
  agentIdCounter :: nat
  usedNames :: "string set"
  carryOverStats :: counters

text \<open>
  The body of a request to \<^verbatim>\<open>/api/events\<close>. The producers send strings for the phase,
  the session id, the source and the tool name, and a number for the timestamp; an
  absent \<^verbatim>\<open>session_id\<close>, \<^verbatim>\<open>source\<close> or \<^verbatim>\<open>timestamp\<close> is \<open>None\<close>.
\<close>

record event =
  phase :: string
  timestamp :: "int option"
  session_id :: "string option"
  source :: "string option"
  tool_name :: string
  tool_input :: json
  tool_response :: json
  model :: json
  message :: json

text \<open>
  What one call of \<open>processEvent\<close> reads from outside: the engine's built-ins, the
  clock and the random numbers at each call site, and \<^verbatim>\<open>config.maxTimelineEvents\<close>
  (\<open>0\<close> when it is absent). A random index is reduced modulo the length of the pool,
  so every position can be drawn.
\<close>

record env =
  builtins :: js
  now_main :: int
  now_sub :: int
  now_tc :: int
  rnd_name :: nat
  rnd_color_main :: nat
  rnd_shape_main :: nat
  rnd_color_sub :: nat
  rnd_shape_sub :: nat
  rnd_tc :: string
  maxTimelineEvents :: nat

datatype outcome = Returned | Threw

subsection \<open>Names, colours and shapes\<close>

definition AGENT_NAMES :: "string list" where
  "AGENT_NAMES =
    [''Nova'', ''Cipher'', ''Pulse'', ''Drift'', ''Flux'', ''Spark'', ''Haze'', ''Bolt'',
     ''Shade'', ''Prism'', ''Ghost'', ''Rune'', ''Jinx'', ''Nyx'', ''Echo'', ''Blitz'',
     ''Vex'', ''Onyx'', ''Wren'', ''Ash'', ''Hex'', ''Arc'', ''Lux'', ''Sable'',
     ''Zephyr'', ''Ember'', ''Pixel'', ''Glitch'', ''Dusk'', ''Crux'', ''Iris'', ''Opal'',
     ''Volt'', ''Cobalt'', ''Radix'', ''Strobe'', ''Nebula'', ''Apex'', ''Flint'', ''Sage'',
     ''Aether'', ''Nimbus'', ''Vesper'', ''Solace'', ''Quasar'', ''Tempest'', ''Wraith'',
     ''Spectre'', ''Homie'']"

definition AGENT_COLORS :: "string list" where
  "AGENT_COLORS =
    [''#ff6b6b'', ''#ffa06b'', ''#ffd93d'', ''#6bff8d'', ''#6bffd4'', ''#6bc5ff'',
     ''#8b6bff'', ''#d46bff'', ''#ff6bba'', ''#ff4081'', ''#00e5ff'', ''#76ff03'',
     ''#ffab40'', ''#7c4dff'', ''#18ffff'', ''#f4ff81'', ''#ff80ab'', ''#b388ff'',
     ''#84ffff'', ''#ccff90'', ''#ffe57f'', ''#a7ffeb'', ''#ea80fc'', ''#80d8ff'']"

definition AGENT_SHAPES :: "string list" where
  "AGENT_SHAPES =
    [''sphere'', ''icosahedron'', ''octahedron'', ''dodecahedron'', ''cube'', ''torus'', ''cone'']"

text \<open>
  \<^verbatim>\<open>pool[Math.floor(Math.random() * pool.length)]\<close> with the random draw \<open>r\<close>; the pools
  are never empty.
\<close>

definition draw :: "nat \<Rightarrow> string list \<Rightarrow> string" where
  "draw r pool = pool ! (r mod length pool)"

definition pickAgentName :: "nat \<Rightarrow> string set \<Rightarrow> string \<times> string set" where
  "pickAgentName r used =
     (let available = filter (\<lambda>n. n \<notin> used) AGENT_NAMES;
          pool = (if available \<noteq> [] then available else AGENT_NAMES);
          name = draw r pool
      in (name, insert name used))"

definition pickAgentColor :: "nat \<Rightarrow> string" where
  "pickAgentColor r = draw r AGENT_COLORS"

definition pickAgentShape :: "nat \<Rightarrow> string" where
  "pickAgentShape r = draw r AGENT_SHAPES"

subsection \<open>Source detection and the session store\<close>

text \<open>\<^verbatim>\<open>event.session_id || d\<close>: an absent or empty id gives the default.\<close>

definition sessionIdOr :: "string \<Rightarrow> event \<Rightarrow> string" where
  "sessionIdOr d e = (case session_id e of Some s \<Rightarrow> (if s \<noteq> [] then s else d) | None \<Rightarrow> d)"

definition detectSource :: "event \<Rightarrow> string" where
  "detectSource e =
     (case source e of
        Some s \<Rightarrow> if s \<noteq> [] then s
                  else if prefix ''oc-'' (sessionIdOr [] e) then ''opencode'' else ''claudecode''
      | None \<Rightarrow> if prefix ''oc-'' (sessionIdOr [] e) then ''opencode'' else ''claudecode'')"

definition zeroCounters :: counters where
  "zeroCounters =
     \<lparr>c_toolCalls = 0, c_filesAccessed = 0, c_estimatedTokens = 0, c_linesAdded = 0,
      c_linesRemoved = 0, c_turns = 0, c_errors = 0\<rparr>"

definition createSessionState :: "string \<Rightarrow> int option \<Rightarrow> string \<Rightarrow> sessionState" where
  "createSessionState sessionId ts src =
     \<lparr>session = \<lparr>s_id = sessionId, s_startedAt = ts, s_status = SessionActive,
                  s_endedAt = None, s_source = (if src \<noteq> [] then src else ''unknown''),
                  s_model = JNull\<rparr>,
      agents = [], timeline = [], files = [], stats = zeroCounters, statsStartedAt = ts,
      pendingToolCalls = [], lastActivity = ts\<rparr>"

definition getSession :: "string \<Rightarrow> state \<Rightarrow> sessionState option" where
  "getSession sessionId st = map_of (sessions st) sessionId"

text \<open>
  \<open>getOrCreateSession\<close> returns the session it found or created, after the backfill of
  the source; \<open>putSession\<close> is the map with that object in it. Every caller goes on
  mutating the object and the model stores the result with \<open>putSession\<close>.
\<close>

definition getOrCreateSession :: "string \<Rightarrow> int option \<Rightarrow> string \<Rightarrow> state \<Rightarrow> sessionState" where
  "getOrCreateSession sessionId ts src st =
     (let ss = (case map_of (sessions st) sessionId of
                  None \<Rightarrow> createSessionState sessionId ts src
                | Some s \<Rightarrow> s)
      in if src \<noteq> [] \<and> s_source (session ss) = ''unknown''
         then ss\<lparr>session := (session ss)\<lparr>s_source := src\<rparr>\<rparr> else ss)"

definition putSession :: "string \<Rightarrow> sessionState \<Rightarrow> state \<Rightarrow> state" where
  "putSession sessionId ss st = st\<lparr>sessions := AList.update sessionId ss (sessions st)\<rparr>"

text \<open>The first element that satisfies \<open>P\<close>, changed in place (\<^verbatim>\<open>find\<close>, then an assignment).\<close>

fun modifyFirst :: "('a \<Rightarrow> bool) \<Rightarrow> ('a \<Rightarrow> 'a) \<Rightarrow> 'a list \<Rightarrow> 'a list" where
  "modifyFirst P f [] = []"
| "modifyFirst P f (x # xs) = (if P x then f x # xs else x # modifyFirst P f xs)"

text \<open>The last element that satisfies \<open>P\<close>: \<^verbatim>\<open>[...xs].reverse().find(P)\<close>.\<close>

definition modifyLast :: "('a \<Rightarrow> bool) \<Rightarrow> ('a \<Rightarrow> 'a) \<Rightarrow> 'a list \<Rightarrow> 'a list" where
  "modifyLast P f xs = rev (modifyFirst P f (rev xs))"

definition isMain :: "agent \<Rightarrow> bool" where
  "isMain a = (a_type a = Main)"

definition reviveAgent :: "agent \<Rightarrow> agent" where
  "reviveAgent a =
     (if a_status a = AgentCompleted then a\<lparr>a_status := AgentActive, a_completedAt := None\<rparr>
      else a)"

definition reactivateIfEnded :: "sessionState \<Rightarrow> int option \<Rightarrow> sessionState" where
  "reactivateIfEnded ss ts =
     (if s_status (session ss) = SessionEnded
      then ss\<lparr>session := (session ss)\<lparr>s_status := SessionActive, s_endedAt := None\<rparr>,
              agents := modifyFirst isMain reviveAgent (agents ss),
              lastActivity := ts\<rparr>
      else ss\<lparr>lastActivity := ts\<rparr>)"

subsection \<open>Agent management\<close>

definition getOrCreateMainAgent ::
  "env \<Rightarrow> sessionState \<Rightarrow> nat \<Rightarrow> string set \<Rightarrow> sessionState \<times> nat \<times> string set \<times> nat" where
  "getOrCreateMainAgent v ss counter used =
     (case find isMain (agents ss) of
        Some main \<Rightarrow> (ss, counter, used, a_id main)
      | None \<Rightarrow>
          (let (name, used') = pickAgentName (rnd_name v) used;
               main = \<lparr>a_id = counter, a_name = JStr name,
                       color = pickAgentColor (rnd_color_main v),
                       shape = pickAgentShape (rnd_shape_main v),
                       a_type = Main, subagentType = JNull, a_model = JNull, parentId = None,
                       a_sessionId = s_id (session ss),
                       a_source = (if s_source (session ss) \<noteq> [] then s_source (session ss)
                                   else ''unknown''),
                       a_status = AgentActive, spawnedAt = now_main v, a_completedAt = None,
                       toolCalls = [], toolCallCount = 0, lastResponse = JUndef\<rparr>
           in (ss\<lparr>agents := agents ss @ [main]\<rparr>, Suc counter, used', counter)))"

definition spawnSubagent ::
  "env \<Rightarrow> sessionState \<Rightarrow> nat \<Rightarrow> json \<Rightarrow> nat \<Rightarrow> sessionState \<times> nat \<times> agent" where
  "spawnSubagent v ss parent taskInput counter =
     (let subType = orElse (getProp taskInput ''subagent_type'') (JStr ''general-purpose'');
          desc = orElse (getProp taskInput ''description'') (JStr ''Subagent'');
          sub = \<lparr>a_id = counter, a_name = desc,
                 color = pickAgentColor (rnd_color_sub v),
                 shape = pickAgentShape (rnd_shape_sub v),
                 a_type = Subagent, subagentType = subType,
                 a_model = orElse (getProp taskInput ''model'') JNull,
                 parentId = Some parent,
                 a_sessionId = s_id (session ss),
                 a_source = (if s_source (session ss) \<noteq> [] then s_source (session ss)
                             else ''unknown''),
                 a_status = AgentActive, spawnedAt = now_sub v, a_completedAt = None,
                 toolCalls = [], toolCallCount = 0, lastResponse = JUndef\<rparr>
      in (ss\<lparr>agents := agents ss @ [sub]\<rparr>, Suc counter, sub))"

text \<open>The index of the last element that satisfies \<open>P\<close>: the backward scan.\<close>

fun lastIndexWhere :: "('a \<Rightarrow> bool) \<Rightarrow> 'a list \<Rightarrow> nat option" where
  "lastIndexWhere P [] = None"
| "lastIndexWhere P (x # xs) =
     (case lastIndexWhere P xs of
        Some i \<Rightarrow> Some (Suc i)
      | None \<Rightarrow> if P x then Some 0 else None)"

text \<open>\<open>findActiveAgent\<close> gives the position of the agent it returns; \<open>None\<close> is \<^verbatim>\<open>null\<close>.\<close>

definition findActiveAgent :: "agent list \<Rightarrow> nat option" where
  "findActiveAgent as =
     (case lastIndexWhere (\<lambda>a. a_status a = AgentActive) as of
        Some i \<Rightarrow> Some i
      | None \<Rightarrow> if as = [] then None else Some 0)"

subsection \<open>Summaries, token estimate, error detection\<close>

definition truncate_str :: "js \<Rightarrow> json \<Rightarrow> nat \<Rightarrow> json option" where
  "truncate_str p str mx =
     (if \<not> truthy str then Some JNull
      else map_option (\<lambda>s. JStr (if length s > mx then take mx s @ ''...'' else s))
             (js_String p str))"

definition summarizeInput :: "js \<Rightarrow> string \<Rightarrow> json \<Rightarrow> json option" where
  "summarizeInput p toolName inp =
     (if \<not> truthy inp then Some JNull
      else if toolName = ''Read'' then Some (orElse (getProp inp ''file_path'') JNull)
      else if toolName = ''Write'' then Some (orElse (getProp inp ''file_path'') JNull)
      else if toolName = ''Edit'' then
        map_option (\<lambda>s. JStr (s @ '' (edit)''))
          (js_String p (orElse (getProp inp ''file_path'') (JStr ''?'')))
      else if toolName = ''Bash'' then truncate_str p (getProp inp ''command'') 120
      else if toolName = ''Grep'' then
        Option.bind (js_String p (orElse (getProp inp ''pattern'') (JStr ''?''))) (\<lambda>a.
          map_option (\<lambda>b. JStr (''/'' @ a @ ''/ in '' @ b))
            (js_String p (orElse (getProp inp ''path'') (JStr ''.''))))
      else if toolName = ''Glob'' then Some (orElse (getProp inp ''pattern'') JNull)
      else if toolName = ''Task'' then
        Option.bind (js_String p (orElse (getProp inp ''subagent_type'') (JStr ''?''))) (\<lambda>a.
          map_option (\<lambda>b. JStr (''['' @ a @ ''] '' @ b))
            (js_String p (orElse (getProp inp ''description'') (JStr []))))
      else if toolName = ''WebSearch'' then Some (orElse (getProp inp ''query'') JNull)
      else if toolName = ''WebFetch'' then Some (orElse (getProp inp ''url'') JNull)
      else if toolName = ''TodoWrite'' then
        map_option (\<lambda>n. JStr (n @ '' items''))
          (js_String p (js_length (orElse (getProp inp ''todos'') (JArr []))))
      else (case inherited p toolName of
              Some r \<Rightarrow> r
            | None \<Rightarrow> truncate_str p (JStr (stringify p inp)) 100))"

text \<open>
  \<^verbatim>\<open>output.content.map(c => c.text || '').join(' ')\<close>: reading \<^verbatim>\<open>c.text\<close> throws when an
  element is \<^verbatim>\<open>null\<close>; \<^verbatim>\<open>join\<close> converts each text to a string.
\<close>

fun joinTexts :: "js \<Rightarrow> json list \<Rightarrow> string option" where
  "joinTexts p [] = Some []"
| "joinTexts p [t] = js_String p t"
| "joinTexts p (t # ts) =
     Option.bind (js_String p t) (\<lambda>a. map_option (\<lambda>b. a @ '' '' @ b) (joinTexts p ts))"

definition summarizeOutput :: "js \<Rightarrow> string \<Rightarrow> json \<Rightarrow> json option" where
  "summarizeOutput p toolName output =
     (if \<not> truthy output then Some JNull
      else case output of
        JStr s \<Rightarrow> truncate_str p output 200
      | _ \<Rightarrow>
         (if truthy (getProp output ''content'') then
            (case getProp output ''content'' of
               JArr cs \<Rightarrow>
                 if \<exists>c \<in> set cs. c = JNull \<or> c = JUndef then None
                 else Option.bind
                        (joinTexts p (map (\<lambda>c. orElse (getProp c ''text'') (JStr [])) cs))
                        (\<lambda>text. truncate_str p (JStr text) 200)
             | c \<Rightarrow> Option.bind (js_String p c) (\<lambda>text. truncate_str p (JStr text) 200))
          else truncate_str p (JStr (stringify p output)) 200))"

definition estimateTokens :: "js \<Rightarrow> json \<Rightarrow> nat" where
  "estimateTokens p obj =
     (if \<not> truthy obj then 0
      else let str = (case obj of JStr s \<Rightarrow> s | _ \<Rightarrow> stringify p obj)
           in (length str + 3) div 4)"

definition detectError :: "js \<Rightarrow> json \<Rightarrow> bool" where
  "detectError p response =
     (if \<not> truthy response then False
      else if isObject response \<and>
              (getProp response ''is_error'' = JBool True \<or> getProp response ''isError'' = JBool True)
      then True
      else if isObject response \<and> truthy (getProp response ''error'') then True
      else let str = (case response of JStr s \<Rightarrow> s | _ \<Rightarrow> stringify p response)
           in if length str > 2000 then False
              else let lower = toLowerCase (take 500 str)
                   in js_includes lower ''command failed'' \<or> js_includes lower ''exit code''
                      \<or> js_includes lower ''error:'' \<or> js_includes lower ''fatal:''
                      \<or> js_includes lower ''traceback (most recent'')"

subsection \<open>File tracking and the timeline\<close>

text \<open>
  \<^verbatim>\<open>str ? (str.match(/\n/g) || []).length + 1 : 0\<close>: a truthy value that is not a string
  has no method \<^verbatim>\<open>match\<close>, and the call throws.
\<close>

definition countLines :: "json \<Rightarrow> nat option" where
  "countLines str =
     (if \<not> truthy str then Some 0
      else case str of
        JStr s \<Rightarrow> Some (length (filter (\<lambda>c. c = CHR 0x0A) s) + 1)
      | _ \<Rightarrow> None)"

definition filePathOf :: "string \<Rightarrow> json \<Rightarrow> json" where
  "filePathOf toolName toolInput =
     (if toolName \<in> set [''Read'', ''Edit'', ''Write'']
      then orElse (orElse (getProp toolInput ''file_path'') (getProp toolInput ''path'')) JNull
      else if toolName = ''Glob'' then orElse (getProp toolInput ''pattern'') JNull
      else if toolName = ''Grep'' then orElse (getProp toolInput ''path'') JNull
      else JNull)"

definition trackLines :: "string \<Rightarrow> json \<Rightarrow> counters \<Rightarrow> counters option" where
  "trackLines toolName toolInput c =
     (if toolName = ''Write'' \<and> truthy (getProp toolInput ''content'') then
        map_option (\<lambda>n. c\<lparr>c_linesAdded := c_linesAdded c + n\<rparr>)
          (countLines (getProp toolInput ''content''))
      else if toolName = ''Edit'' \<and> truthy toolInput then
        (case countLines (getProp toolInput ''old_string'') of
           None \<Rightarrow> None
         | Some oldLines \<Rightarrow>
            (case countLines (getProp toolInput ''new_string'') of
               None \<Rightarrow> None
             | Some newLines \<Rightarrow>
                 Some (if newLines > oldLines
                       then c\<lparr>c_linesAdded := c_linesAdded c + (newLines - oldLines)\<rparr>
                       else if oldLines > newLines
                       then c\<lparr>c_linesRemoved := c_linesRemoved c + (oldLines - newLines)\<rparr>
                       else c)))
      else Some c)"

text \<open>
  \<^verbatim>\<open>ss.files.get(filePath)\<close>: a Map compares strings, numbers and booleans by value and
  objects by reference, and the object of a fresh request is no key of the map.
\<close>

definition filesGet :: "(json \<times> fileInfo) list \<Rightarrow> json \<Rightarrow> fileInfo option" where
  "filesGet fs k = (if isObject k then None else map_of fs k)"

definition trackFileAccess ::
  "sessionState \<Rightarrow> string \<Rightarrow> json \<Rightarrow> int option \<Rightarrow> sessionState option" where
  "trackFileAccess ss toolName toolInput ts =
     (case trackLines toolName toolInput (stats ss) of
        None \<Rightarrow> None
      | Some c \<Rightarrow>
         (let filePath = filePathOf toolName toolInput
          in if truthy filePath then
               (case filesGet (files ss) filePath of
                  Some existing \<Rightarrow>
                    Some (ss\<lparr>stats := c,
                             files := AList.map_entry filePath
                               (\<lambda>f. f\<lparr>accessCount := accessCount f + 1, lastAccessed := ts\<rparr>)
                               (files ss)\<rparr>)
                | None \<Rightarrow>
                    Some (ss\<lparr>stats := c\<lparr>c_filesAccessed := c_filesAccessed c + 1\<rparr>,
                             files := files ss @
                               [(filePath, \<lparr>f_path = filePath, accessCount = 1,
                                            lastAccessed = ts, f_tool = toolName\<rparr>)]\<rparr>))
             else Some (ss\<lparr>stats := c\<rparr>)))"

definition addTimelineEvent ::
  "env \<Rightarrow> sessionState \<Rightarrow> int option \<Rightarrow> nat \<Rightarrow> timelineData \<Rightarrow> sessionState" where
  "addTimelineEvent v ss ts agentId d =
     (let tl = timeline ss @ [\<lparr>tl_timestamp = ts, tl_agentId = agentId, tl_data = d\<rparr>];
          mx = (if maxTimelineEvents v \<noteq> 0 then maxTimelineEvents v else 1000)
      in ss\<lparr>timeline := (if length tl > mx then drop (length tl - mx) tl else tl)\<rparr>)"

subsection \<open>Event processing\<close>

definition addCounters :: "counters \<Rightarrow> counters \<Rightarrow> counters" where
  "addCounters carry c =
     \<lparr>c_toolCalls = c_toolCalls carry + c_toolCalls c,
      c_filesAccessed = c_filesAccessed carry + c_filesAccessed c,
      c_estimatedTokens = c_estimatedTokens carry + c_estimatedTokens c,
      c_linesAdded = c_linesAdded carry + c_linesAdded c,
      c_linesRemoved = c_linesRemoved carry + c_linesRemoved c,
      c_turns = c_turns carry + c_turns c,
      c_errors = c_errors carry + c_errors c\<rparr>"

text \<open>
  \<^verbatim>\<open>case 'session_start'\<close>. \<open>resetExisting\<close> is the block of lines 237 to 247: the
  statistics of a session that exists are added to the carry-over and the session is
  deleted.
\<close>

definition resetExisting :: "string \<Rightarrow> state \<Rightarrow> state" where
  "resetExisting sid st =
     (case map_of (sessions st) sid of
        Some old \<Rightarrow>
          st\<lparr>carryOverStats := addCounters (carryOverStats st) (stats old),
             sessions := AList.delete sid (sessions st)\<rparr>
      | None \<Rightarrow> st)"

definition case_session_start :: "env \<Rightarrow> event \<Rightarrow> state \<Rightarrow> outcome \<times> state" where
  "case_session_start v e st =
     (let sid = sessionIdOr ''unknown'' e;
          st1 = resetExisting sid st;
          ss = getOrCreateSession sid (timestamp e) (detectSource e) st1;
          (ss', counter, used, mainId) =
             getOrCreateMainAgent v ss (agentIdCounter st1) (usedNames st1)
      in (Returned, putSession sid ss' (st1\<lparr>agentIdCounter := counter, usedNames := used\<rparr>)))"

text \<open>Every active agent of the list becomes completed at \<open>ts\<close>.\<close>

definition completeAgent :: "int option \<Rightarrow> agent \<Rightarrow> agent" where
  "completeAgent ts a = a\<lparr>a_status := AgentCompleted, a_completedAt := ts\<rparr>"

definition completeActiveAgents :: "int option \<Rightarrow> agent list \<Rightarrow> agent list" where
  "completeActiveAgents ts as =
     map (\<lambda>a. if a_status a = AgentActive then completeAgent ts a else a) as"

definition endSession :: "int option \<Rightarrow> sessionState \<Rightarrow> sessionState" where
  "endSession ts ss =
     ss\<lparr>session := (session ss)\<lparr>s_status := SessionEnded, s_endedAt := ts\<rparr>,
        agents := completeActiveAgents ts (agents ss)\<rparr>"

text \<open>\<^verbatim>\<open>case 'session_end'\<close>\<close>

definition case_session_end :: "env \<Rightarrow> event \<Rightarrow> state \<Rightarrow> outcome \<times> state" where
  "case_session_end v e st =
     (let sid = sessionIdOr ''unknown'' e
      in case getSession sid st of
           Some ss \<Rightarrow> (Returned, putSession sid (endSession (timestamp e) ss) st)
         | None \<Rightarrow> (Returned, st))"

definition captureModel :: "json \<Rightarrow> sessionState \<Rightarrow> sessionState" where
  "captureModel m ss =
     (case find isMain (agents ss) of
        None \<Rightarrow> ss
      | Some mainAgent \<Rightarrow>
          if truthy m \<and> \<not> truthy (a_model mainAgent)
          then ss\<lparr>agents := modifyFirst isMain (\<lambda>a. a\<lparr>a_model := m\<rparr>) (agents ss),
                  session := (session ss)\<lparr>s_model := m\<rparr>\<rparr>
          else ss)"

text \<open>Lines 274 to 277: the spawn of a subagent on the tool \<^verbatim>\<open>Task\<close>.\<close>

definition spawnOnTask :: "env \<Rightarrow> event \<Rightarrow> nat \<Rightarrow> sessionState \<Rightarrow> nat \<Rightarrow> sessionState \<times> nat" where
  "spawnOnTask v e mainId ss counter =
     (if tool_name e = ''Task'' then
        (let (ss1, counter1, sub) = spawnSubagent v ss mainId (tool_input e) counter
         in (addTimelineEvent v ss1 (timestamp e) (a_id sub)
               (AgentSpawn (a_name sub) (subagentType sub) (parentId sub)), counter1))
      else (ss, counter))"

definition newToolCall :: "env \<Rightarrow> event \<Rightarrow> json \<Rightarrow> toolCall" where
  "newToolCall v e summary =
     \<lparr>tc_id = (now_tc v, rnd_tc v), tool = tool_name e, inputSummary = summary,
      outputSummary = JNull, tc_startedAt = timestamp e, tc_completedAt = None,
      tc_status = Executing\<rparr>"

definition pushToolCall :: "toolCall \<Rightarrow> agent \<Rightarrow> agent" where
  "pushToolCall tc a = a\<lparr>toolCalls := toolCalls a @ [tc], toolCallCount := toolCallCount a + 1\<rparr>"

text \<open>Lines 279 to 297: the tool call is recorded on the active agent.\<close>

definition recordToolStart :: "env \<Rightarrow> event \<Rightarrow> sessionState \<Rightarrow> outcome \<times> sessionState" where
  "recordToolStart v e ss =
     (case findActiveAgent (agents ss) of
        None \<Rightarrow> (Returned, ss)
      | Some i \<Rightarrow>
         (case summarizeInput (builtins v) (tool_name e) (tool_input e) of
            None \<Rightarrow> (Threw, ss)
          | Some summary \<Rightarrow>
             (let tc = newToolCall v e summary;
                  ss1 = ss\<lparr>agents := (agents ss)[i := pushToolCall tc (agents ss ! i)],
                           stats := (stats ss)\<lparr>c_toolCalls := c_toolCalls (stats ss) + 1,
                              c_estimatedTokens := c_estimatedTokens (stats ss)
                                + estimateTokens (builtins v) (tool_input e)\<rparr>,
                           pendingToolCalls :=
                              AList.update (tool_name e) (tc_id tc) (pendingToolCalls ss)\<rparr>
              in case trackFileAccess ss1 (tool_name e) (tool_input e) (timestamp e) of
                   None \<Rightarrow> (Threw, ss1)
                 | Some ss2 \<Rightarrow>
                     (Returned, addTimelineEvent v ss2 (timestamp e) (a_id (agents ss ! i))
                        (ToolStart (tc_id tc) (tool_name e) (inputSummary tc))))))"

text \<open>\<^verbatim>\<open>case 'pre'\<close>\<close>

definition case_pre :: "env \<Rightarrow> event \<Rightarrow> state \<Rightarrow> outcome \<times> state" where
  "case_pre v e st =
     (let sid = sessionIdOr ''unknown'' e;
          ss1 = reactivateIfEnded (getOrCreateSession sid (timestamp e) (detectSource e) st)
                  (timestamp e);
          (ss2, counter2, used2, mainId) =
             getOrCreateMainAgent v ss1 (agentIdCounter st) (usedNames st);
          ss3 = captureModel (model e) ss2;
          (ss4, counter4) = spawnOnTask v e mainId ss3 counter2;
          (out, ss5) = recordToolStart v e ss4
      in (out, putSession sid ss5 (st\<lparr>agentIdCounter := counter4, usedNames := used2\<rparr>)))"

text \<open>
  The search of lines 308 to 311: the first agent that holds a call with the pending id,
  and in it the first such call.
\<close>

fun findToolCall :: "tcid \<Rightarrow> agent list \<Rightarrow> toolCall option" where
  "findToolCall pid [] = None"
| "findToolCall pid (a # as) =
     (case find (\<lambda>tc. tc_id tc = pid) (toolCalls a) of
        Some tc \<Rightarrow> Some tc
      | None \<Rightarrow> findToolCall pid as)"

text \<open>The assignments to the call that the search returned.\<close>

fun modifyToolCall :: "tcid \<Rightarrow> (toolCall \<Rightarrow> toolCall) \<Rightarrow> agent list \<Rightarrow> agent list" where
  "modifyToolCall pid f [] = []"
| "modifyToolCall pid f (a # as) =
     (case find (\<lambda>tc. tc_id tc = pid) (toolCalls a) of
        Some tc \<Rightarrow> a\<lparr>toolCalls := modifyFirst (\<lambda>tc. tc_id tc = pid) f (toolCalls a)\<rparr> # as
      | None \<Rightarrow> a # modifyToolCall pid f as)"

definition finishToolCall :: "int option \<Rightarrow> json \<Rightarrow> bool \<Rightarrow> toolCall \<Rightarrow> toolCall" where
  "finishToolCall ts out isError tc =
     tc\<lparr>tc_completedAt := ts, outputSummary := out,
        tc_status := (if isError then Error else Completed)\<rparr>"

text \<open>Lines 321 to 326: what \<^verbatim>\<open>case 'post'\<close> does after the matching.\<close>

definition finishToolEnd :: "env \<Rightarrow> event \<Rightarrow> nat \<Rightarrow> json \<Rightarrow> sessionState \<Rightarrow> sessionState" where
  "finishToolEnd v e agentId out ss =
     (let ss1 = ss\<lparr>stats := (stats ss)\<lparr>c_estimatedTokens := c_estimatedTokens (stats ss)
                      + estimateTokens (builtins v) (tool_response e)\<rparr>\<rparr>;
          ss2 = (if tool_name e = ''Task''
                 then ss1\<lparr>agents := modifyLast
                            (\<lambda>a. a_type a = Subagent \<and> a_status a = AgentActive)
                            (completeAgent (timestamp e)) (agents ss1)\<rparr>
                 else ss1)
      in addTimelineEvent v ss2 (timestamp e) agentId (ToolEnd (tool_name e) (orElse out JNull)))"

text \<open>Lines 303 to 327.\<close>

definition recordToolEnd :: "env \<Rightarrow> event \<Rightarrow> sessionState \<Rightarrow> outcome \<times> sessionState" where
  "recordToolEnd v e ss =
     (case findActiveAgent (agents ss) of
        None \<Rightarrow> (Returned, ss)
      | Some i \<Rightarrow>
         (case map_of (pendingToolCalls ss) (tool_name e) of
            None \<Rightarrow> (Returned, finishToolEnd v e (a_id (agents ss ! i)) JNull ss)
          | Some pendingId \<Rightarrow>
             (let ss1 = ss\<lparr>pendingToolCalls := AList.delete (tool_name e) (pendingToolCalls ss)\<rparr>
              in case findToolCall pendingId (agents ss) of
                   None \<Rightarrow> (Returned, finishToolEnd v e (a_id (agents ss ! i)) JNull ss1)
                 | Some toolCall \<Rightarrow>
                    (case summarizeOutput (builtins v) (tool_name e) (tool_response e) of
                       None \<Rightarrow>
                         (Threw, ss1\<lparr>agents := modifyToolCall pendingId
                                     (\<lambda>tc. tc\<lparr>tc_completedAt := timestamp e\<rparr>) (agents ss1)\<rparr>)
                     | Some out \<Rightarrow>
                         (let isError = detectError (builtins v) (tool_response e);
                              ss2 = ss1\<lparr>agents := modifyToolCall pendingId
                                      (finishToolCall (timestamp e) out isError) (agents ss1),
                                    stats := (if isError
                                      then (stats ss1)\<lparr>c_errors := c_errors (stats ss1) + 1\<rparr>
                                      else stats ss1)\<rparr>
                          in (Returned, finishToolEnd v e (a_id (agents ss ! i)) out ss2))))))"

text \<open>\<^verbatim>\<open>case 'post'\<close>\<close>

definition case_post :: "env \<Rightarrow> event \<Rightarrow> state \<Rightarrow> outcome \<times> state" where
  "case_post v e st =
     (let sid = sessionIdOr ''unknown'' e;
          ss1 = reactivateIfEnded (getOrCreateSession sid (timestamp e) (detectSource e) st)
                  (timestamp e);
          (out, ss2) = recordToolEnd v e ss1
      in (out, putSession sid ss2 st))"

text \<open>\<^verbatim>\<open>case 'notification'\<close>\<close>

definition recordResponse :: "env \<Rightarrow> event \<Rightarrow> sessionState \<Rightarrow> outcome \<times> sessionState" where
  "recordResponse v e ss =
     (let ss1 = ss\<lparr>stats := (stats ss)\<lparr>c_turns := c_turns (stats ss) + 1\<rparr>\<rparr>
      in case findActiveAgent (agents ss1) of
           None \<Rightarrow> (Returned, ss1)
         | Some i \<Rightarrow>
            (let ss2 = ss1\<lparr>agents := (agents ss1)
                         [i := (agents ss1 ! i)\<lparr>lastResponse := orElse (message e) JNull\<rparr>]\<rparr>
             in case truncate_str (builtins v) (message e) 200 of
                  None \<Rightarrow> (Threw, ss2)
                | Some m \<Rightarrow>
                    (Returned, addTimelineEvent v ss2 (timestamp e) (a_id (agents ss1 ! i))
                       (AgentResponse m))))"

definition case_notification :: "env \<Rightarrow> event \<Rightarrow> state \<Rightarrow> outcome \<times> state" where
  "case_notification v e st =
     (let sid = sessionIdOr ''unknown'' e;
          ss1 = reactivateIfEnded (getOrCreateSession sid (timestamp e) (detectSource e) st)
                  (timestamp e);
          (out, ss2) = recordResponse v e ss1
      in (out, putSession sid ss2 st))"

text \<open>
  \<open>processEvent\<close>: the \<^verbatim>\<open>switch\<close> on the phase; an unknown phase changes nothing. The
  broadcast that follows reads the state and does not change it.
\<close>

definition processEvent :: "env \<Rightarrow> event \<Rightarrow> state \<Rightarrow> outcome \<times> state" where
  "processEvent v e st =
     (if phase e = ''session_start'' then case_session_start v e st
      else if phase e = ''session_end'' then case_session_end v e st
      else if phase e = ''pre'' then case_pre v e st
      else if phase e = ''post'' then case_post v e st
      else if phase e = ''notification'' then case_notification v e st
      else (Returned, st))"

subsection \<open>The pruner\<close>

text \<open>
  The three tests of the sweep at the time \<open>now\<close>. A comparison with an absent
  timestamp is false in JavaScript (\<^verbatim>\<open>now - undefined\<close> is \<^verbatim>\<open>NaN\<close>), and
  \<^verbatim>\<open>s.session.endedAt && ...\<close> is false for the timestamp zero.
\<close>

definition isExpired :: "int \<Rightarrow> sessionState \<Rightarrow> bool" where
  "isExpired now s =
     (s_status (session s) = SessionEnded \<and>
      (case s_endedAt (session s) of
         Some t \<Rightarrow> t \<noteq> 0 \<and> t < now - 2 * 60 * 1000
       | None \<Rightarrow> False))"

definition isGhost :: "int \<Rightarrow> sessionState \<Rightarrow> bool" where
  "isGhost now s =
     (s_status (session s) = SessionActive \<and> c_toolCalls (stats s) = 0 \<and>
      (case lastActivity s of Some t \<Rightarrow> now - t > 15000 | None \<Rightarrow> False))"

definition isStale :: "int \<Rightarrow> int \<Rightarrow> sessionState \<Rightarrow> bool" where
  "isStale now staleTimeout s =
     (s_status (session s) = SessionActive \<and>
      (case lastActivity s of Some t \<Rightarrow> now - t > staleTimeout | None \<Rightarrow> False))"

text \<open>\<^verbatim>\<open>for (const a of s.agents) { if (a.type === 'main') usedNames.delete(a.name); }\<close>\<close>

definition releaseName :: "agent \<Rightarrow> string set \<Rightarrow> string set" where
  "releaseName a used =
     (if a_type a = Main then (case a_name a of JStr n \<Rightarrow> used - {n} | _ \<Rightarrow> used) else used)"

definition releaseNames :: "agent list \<Rightarrow> string set \<Rightarrow> string set" where
  "releaseNames as used = fold releaseName as used"

text \<open>
  The body of the loop for the entry \<open>(k, s)\<close> of the map, on the state and the flag
  \<^verbatim>\<open>changed\<close>.
\<close>

definition pruneSession :: "int \<Rightarrow> int \<Rightarrow> string \<times> sessionState \<Rightarrow> state \<times> bool \<Rightarrow> state \<times> bool" where
  "pruneSession now staleTimeout entry acc =
     (case (entry, acc) of ((k, s), (st, changed)) \<Rightarrow>
        if isExpired now s then
          (st\<lparr>carryOverStats := addCounters (carryOverStats st) (stats s),
              usedNames := releaseNames (agents s) (usedNames st),
              sessions := AList.delete k (sessions st)\<rparr>, True)
        else if isGhost now s then
          (st\<lparr>usedNames := releaseNames (agents s) (usedNames st),
              sessions := AList.delete k (sessions st)\<rparr>, True)
        else if isStale now staleTimeout s then
          (st\<lparr>sessions := AList.update k (endSession (Some now) s) (sessions st)\<rparr>, True)
        else (st, changed))"

text \<open>
  \<open>pruneStaleAndEndedSessions\<close> at the time \<open>now\<close> with the constant \<^verbatim>\<open>STALE_TIMEOUT\<close>:
  the loop visits the entries the map had when the sweep began, each one once. The flag
  says whether a broadcast follows.
\<close>

definition pruneStaleAndEndedSessions :: "int \<Rightarrow> int \<Rightarrow> state \<Rightarrow> state \<times> bool" where
  "pruneStaleAndEndedSessions now staleTimeout st =
     fold (pruneSession now staleTimeout) (sessions st) (st, False)"

subsection \<open>The public state\<close>

text \<open>
  The part of \<open>getPublicState\<close> that the properties below read: the session list, the
  current session, the agents with their capped histories and the statistics. The
  timeline, the file list and the configuration of the snapshot are left out.
\<close>

record publicState =
  ps_sessions :: "sessionInfo list"
  ps_session :: "sessionInfo option"
  ps_agents :: "agent list"
  totals :: counters
  ps_startedAt :: "int option"
  agentCount :: nat
  activeAgents :: nat
  activeTools :: nat
  sessionCount :: nat
  activeSessionCount :: nat

definition publicAgent :: "sessionState \<Rightarrow> agent \<Rightarrow> agent" where
  "publicAgent ss a =
     a\<lparr>a_sessionId := s_id (session ss),
       a_source := (if a_source a \<noteq> [] then a_source a
                    else if s_source (session ss) \<noteq> [] then s_source (session ss)
                    else ''unknown''),
       toolCalls := drop (length (toolCalls a) - 50) (toolCalls a)\<rparr>"

definition earlier :: "sessionState \<Rightarrow> int option \<Rightarrow> int option" where
  "earlier ss earliestStart =
     (case statsStartedAt ss of
        None \<Rightarrow> earliestStart
      | Some t \<Rightarrow>
          if t \<noteq> 0 \<and> (case earliestStart of None \<Rightarrow> True | Some m \<Rightarrow> m = 0 \<or> t < m)
          then Some t else earliestStart)"

definition getPublicState :: "state \<Rightarrow> publicState" where
  "getPublicState st =
     (let sessionList = map (\<lambda>(sid, ss). session ss) (sessions st);
          allAgents = concat (map (\<lambda>(sid, ss). map (publicAgent ss) (agents ss)) (sessions st))
      in \<lparr>ps_sessions = sessionList,
          ps_session = (case find (\<lambda>s. s_status s = SessionActive) sessionList of
                          Some s \<Rightarrow> Some s
                        | None \<Rightarrow> if sessionList = [] then None else Some (last sessionList)),
          ps_agents = allAgents,
          totals = fold (\<lambda>(sid, ss) t. addCounters t (stats ss)) (sessions st)
                     (carryOverStats st),
          ps_startedAt = fold (\<lambda>(sid, ss) m. earlier ss m) (sessions st) None,
          agentCount = length allAgents,
          activeAgents = length (filter (\<lambda>a. a_status a = AgentActive) allAgents),
          activeTools = fold (\<lambda>(sid, ss) n. n + length (pendingToolCalls ss)) (sessions st) 0,
          sessionCount = length (sessions st),
          activeSessionCount = length (filter (\<lambda>s. s_status s = SessionActive) sessionList)\<rparr>)"

subsection \<open>The administrative disconnect\<close>

text \<open>
  Modelled from the spec: the handler of the command that disconnects the sessions of one
  source platform (the route \<^verbatim>\<open>/api/admin/disconnect\<close> that \<^verbatim>\<open>cmdOff\<close> calls) is not among
  the sources. Section 4.2 of the specification gives \<^verbatim>\<open>delete(sessionId)\<close>: the
  statistics are folded into the carry-over, the name of the main agent is released, the
  session is removed. Section 6 gives the command: it removes the sessions whose source
  tag is the given one and leaves the others untouched.
\<close>

definition deleteSession :: "string \<Rightarrow> state \<Rightarrow> state" where
  "deleteSession k st =
     (case map_of (sessions st) k of
        None \<Rightarrow> st
      | Some s \<Rightarrow>
          st\<lparr>carryOverStats := addCounters (carryOverStats st) (stats s),
             usedNames := releaseNames (agents s) (usedNames st),
             sessions := AList.delete k (sessions st)\<rparr>)"

text \<open>
  Modelled from the spec: the command itself, absent from the sources like its handler.
  Every session of the map whose source tag is \<open>src\<close> is deleted as above.
\<close>

definition disconnectSource :: "string \<Rightarrow> state \<Rightarrow> state" where
  "disconnectSource src st =
     fold (\<lambda>(k, s) st'. if s_source (session s) = src then deleteSession k st' else st')
       (sessions st) st"

subsection \<open>Notions used by the properties\<close>

text \<open>All tool-call records of a list of agents, agent by agent.\<close>

definition allCalls :: "agent list \<Rightarrow> toolCall list" where
  "allCalls as = concat (map toolCalls as)"

text \<open>The tool-call records and the agents of the session \<open>k\<close>; none when the map has no such session.\<close>

definition sessionAgents :: "state \<Rightarrow> string \<Rightarrow> agent list" where
  "sessionAgents st k = (case map_of (sessions st) k of None \<Rightarrow> [] | Some ss \<Rightarrow> agents ss)"

definition sessionCalls :: "state \<Rightarrow> string \<Rightarrow> toolCall list" where
  "sessionCalls st k = allCalls (sessionAgents st k)"

text \<open>
  The timestamps of a session that an event sets: the start of the session, the start of
  its statistics and its last activity.
\<close>

definition sessionTimes :: "sessionState \<Rightarrow> int option \<times> int option \<times> int option" where
  "sessionTimes ss = (s_startedAt (session ss), statsStartedAt ss, lastActivity ss)"

text \<open>The records of the tool \<open>T\<close> in the session \<open>k\<close> that are in the state executing.\<close>

definition executingCalls :: "state \<Rightarrow> string \<Rightarrow> string \<Rightarrow> toolCall list" where
  "executingCalls st k T =
     filter (\<lambda>tc. tool tc = T \<and> tc_status tc = Executing) (sessionCalls st k)"

text \<open>What places an agent in the tree of its session: identifier, type, status and parent.\<close>

definition agentCore :: "agent \<Rightarrow> nat \<times> agentType \<times> agentStatus \<times> nat option" where
  "agentCore a = (a_id a, a_type a, a_status a, parentId a)"

text \<open>The identifier of the agent that \<open>findActiveAgent\<close> returns in the session \<open>k\<close>.\<close>

definition activeAgentId :: "state \<Rightarrow> string \<Rightarrow> nat option" where
  "activeAgentId st k =
     (let as = sessionAgents st k in map_option (\<lambda>i. a_id (as ! i)) (findActiveAgent as))"

text \<open>
  What holds of the session map in every state the worker reaches: a Map has one entry
  for a key, and a session is stored under its own id.
\<close>

definition wfSessions :: "state \<Rightarrow> bool" where
  "wfSessions st =
     (distinct (map fst (sessions st)) \<and> (\<forall>(k, s) \<in> set (sessions st). s_id (session s) = k))"

text \<open>No counter of \<open>a\<close> exceeds the counter of \<open>b\<close>.\<close>

definition countersLe :: "counters \<Rightarrow> counters \<Rightarrow> bool" where
  "countersLe a b =
     (c_toolCalls a \<le> c_toolCalls b \<and> c_filesAccessed a \<le> c_filesAccessed b \<and>
      c_estimatedTokens a \<le> c_estimatedTokens b \<and> c_linesAdded a \<le> c_linesAdded b \<and>
      c_linesRemoved a \<le> c_linesRemoved b \<and> c_turns a \<le> c_turns b \<and>
      c_errors a \<le> c_errors b)"

definition counterFields :: "(counters \<Rightarrow> nat) list" where
  "counterFields =
     [c_toolCalls, c_filesAccessed, c_estimatedTokens, c_linesAdded, c_linesRemoved, c_turns,
      c_errors]"

text \<open>The counters of the session \<open>k\<close>; zero when the map has no such session.\<close>

definition sessionStats :: "state \<Rightarrow> string \<Rightarrow> counters" where
  "sessionStats st k = (case map_of (sessions st) k of None \<Rightarrow> zeroCounters | Some ss \<Rightarrow> stats ss)"

text \<open>
  The sum of the counters of the sessions that a sweep at the time \<open>now\<close> deletes by its
  second test (active, no tool call, idle for more than 15 seconds).
\<close>

definition ghostStats :: "int \<Rightarrow> state \<Rightarrow> counters" where
  "ghostStats now st =
     fold (\<lambda>(k, s) t. if isGhost now s then addCounters t (stats s) else t) (sessions st)
       zeroCounters"

text \<open>
  Every agent of the list that bears the identifier \<open>x\<close> is a completed subagent; and the
  same for every session of a state in which \<open>x\<close> has already been issued.
\<close>

definition settled :: "nat \<Rightarrow> agent list \<Rightarrow> bool" where
  "settled x as = (\<forall>a \<in> set as. a_id a = x \<longrightarrow> a_type a = Subagent \<and> a_status a = AgentCompleted)"

definition completedSubagent :: "nat \<Rightarrow> state \<Rightarrow> bool" where
  "completedSubagent x st =
     (x < agentIdCounter st \<and> (\<forall>(k, s) \<in> set (sessions st). settled x (agents s)))"

text \<open>The state of the module when it is loaded.\<close>

definition initialState :: state where
  "initialState =
     \<lparr>sessions = [], agentIdCounter = 0, usedNames = {}, carryOverStats = zeroCounters\<rparr>"

text \<open>
  What happens to the state over the life of the process: events are processed and the
  pruner sweeps (at a time, with the constant \<^verbatim>\<open>STALE_TIMEOUT\<close>). An exception leaves the
  state as it is when it is thrown; the route handler catches it.
\<close>

datatype step = Event env event | Sweep int int

fun applyStep :: "step \<Rightarrow> state \<Rightarrow> state" where
  "applyStep (Event v e) st = snd (processEvent v e st)"
| "applyStep (Sweep now staleTimeout) st = fst (pruneStaleAndEndedSessions now staleTimeout st)"

definition run :: "step list \<Rightarrow> state \<Rightarrow> state" where
  "run steps st = fold applyStep steps st"

text \<open>The outcomes of the events of a run, in their order.\<close>

fun outcomes :: "step list \<Rightarrow> state \<Rightarrow> outcome list" where
  "outcomes [] st = []"
| "outcomes (Event v e # steps) st =
     fst (processEvent v e st) # outcomes steps (applyStep (Event v e) st)"
| "outcomes (Sweep now staleTimeout # steps) st =
     outcomes steps (applyStep (Sweep now staleTimeout) st)"


subsection \<open>Sample inputs\<close>

definition demoJs :: js where
  "demoJs = \<lparr>toStr = (\<lambda>v. Some ''[object Object]''), stringify = (\<lambda>v. ''{}''),
             inherited = (\<lambda>n. None)\<rparr>"

definition demoEnv :: "int \<Rightarrow> string \<Rightarrow> env" where
  "demoEnv t r =
     \<lparr>builtins = demoJs, now_main = t, now_sub = t, now_tc = t, rnd_name = 0,
      rnd_color_main = 0, rnd_shape_main = 0, rnd_color_sub = 0, rnd_shape_sub = 0,
      rnd_tc = r, maxTimelineEvents = 0\<rparr>"

definition demoEvent :: "string \<Rightarrow> int option \<Rightarrow> string \<Rightarrow> json \<Rightarrow> json \<Rightarrow> event" where
  "demoEvent ph ts T inp resp =
     \<lparr>phase = ph, timestamp = ts, session_id = Some ''s1'', source = Some ''claudecode'',
      tool_name = T, tool_input = inp, tool_response = resp, model = JUndef,
      message = JUndef\<rparr>"

definition demoAgent :: "nat \<Rightarrow> agentType \<Rightarrow> agentStatus \<Rightarrow> agent" where
  "demoAgent n ty stt =
     \<lparr>a_id = n, a_name = JStr ''Nova'', color = ''#ff6b6b'', shape = ''sphere'', a_type = ty,
      subagentType = JNull, a_model = JNull,
      parentId = (if ty = Main then None else Some 0), a_sessionId = ''s1'',
      a_source = ''claudecode'', a_status = stt, spawnedAt = 1,
      a_completedAt = (if stt = AgentCompleted then Some 9 else None),
      toolCalls = [], toolCallCount = 0, lastResponse = JUndef\<rparr>"

text \<open>A session that ended at the time 9, with a completed main agent.\<close>

definition demoEnded :: sessionState where
  "demoEnded =
     (createSessionState ''s1'' (Some 1) ''claudecode'')
       \<lparr>session := \<lparr>s_id = ''s1'', s_startedAt = Some 1, s_status = SessionEnded,
                    s_endedAt = Some 9, s_source = ''claudecode'', s_model = JNull\<rparr>,
        agents := [demoAgent 0 Main AgentCompleted]\<rparr>"

text \<open>Events of the session \<^verbatim>\<open>s1\<close>.\<close>

definition startEv :: event where
  "startEv = demoEvent ''session_start'' (Some 1) [] JUndef JUndef"

definition preEv :: "int option \<Rightarrow> string \<Rightarrow> json \<Rightarrow> event" where
  "preEv ts T inp = demoEvent ''pre'' ts T inp JUndef"

definition postEv :: "int option \<Rightarrow> string \<Rightarrow> json \<Rightarrow> event" where
  "postEv ts T resp = demoEvent ''post'' ts T JUndef resp"

definition readInput :: json where
  "readInput = JObj [(''file_path'', JStr ''/tmp/a.txt'')]"

text \<open>The state after \<^verbatim>\<open>session_start\<close> for \<^verbatim>\<open>s1\<close>.\<close>

definition demoStarted :: state where
  "demoStarted = run [Event (demoEnv 5 ''aaaa'') startEv] initialState"

text \<open>The state after a \<^verbatim>\<open>session_start\<close> for \<^verbatim>\<open>s1\<close> that carries no timestamp.\<close>

definition demoUntimed :: state where
  "demoUntimed =
     run [Event (demoEnv 5 ''aaaa'') (startEv\<lparr>timestamp := None\<rparr>)] initialState"

definition taskInput :: "string \<Rightarrow> json" where
  "taskInput description = JObj [(''description'', JStr description)]"

text \<open>The state after \<^verbatim>\<open>session_start\<close> and a \<^verbatim>\<open>pre\<close> event of \<^verbatim>\<open>Task\<close>: a subagent is active.\<close>

definition demoDelegated :: state where
  "demoDelegated =
     run [Event (demoEnv 6 ''bbbb'') (preEv (Some 2) ''Task'' (taskInput ''explore''))]
       demoStarted"

text \<open>The state after \<^verbatim>\<open>session_start\<close> and a \<^verbatim>\<open>pre\<close> event of \<^verbatim>\<open>Read\<close>: one call is pending.\<close>

definition demoReading :: state where
  "demoReading =
     run [Event (demoEnv 6 ''bbbb'') (preEv (Some 2) ''Read'' readInput)] demoStarted"





text \<open>The response \<^verbatim>\<open>{"content": [null]}\<close>.\<close>

definition nullContent :: json where
  "nullContent = JObj [(''content'', JArr [JNull])]"

definition endEv :: event where
  "endEv = demoEvent ''session_end'' (Some 2) [] JUndef JUndef"

text \<open>A second session, of the other platform, beside \<^verbatim>\<open>s1\<close>.\<close>

definition demoTwoSources :: state where
  "demoTwoSources =
     run [Event (demoEnv 6 ''bbbb'')
            ((preEv (Some 2) ''Read'' readInput)
               \<lparr>session_id := Some ''oc-7'', source := None\<rparr>)] demoStarted"

text \<open>
  The state after the \<^verbatim>\<open>post\<close> event of \<^verbatim>\<open>Task\<close>: the subagent with the identifier 1 is
  completed. Then the session ends and a \<^verbatim>\<open>pre\<close> event reactivates it.
\<close>

definition demoFinished :: state where
  "demoFinished =
     run [Event (demoEnv 7 ''cccc'') (postEv (Some 3) ''Task'' (JStr ''done''))] demoDelegated"

definition demoLater :: "step list" where
  "demoLater =
     [Event (demoEnv 8 ''dddd'') endEv,
      Event (demoEnv 9 ''eeee'') (preEv (Some 9) ''Read'' readInput),
      Sweep 20000 300000]"

section \<open>Properties\<close>

subsection \<open>Lists changed in one place\<close>

lemma modifyFirst_split:
  "\<forall>a\<in>set pre. \<not> P a \<Longrightarrow> P m \<Longrightarrow> modifyFirst P f (pre @ m # post) = pre @ f m # post"
  by (induction pre) auto

lemma modifyFirst_none: "\<forall>a\<in>set xs. \<not> P a \<Longrightarrow> modifyFirst P f xs = xs"
  by (induction xs) auto

subsection \<open>Reactivation\<close>

text \<open>
  Claim C6. \<open>reactivateIfEnded\<close> on an ended session sets the status to active, clears the
  end timestamp, sets the last activity and changes no other field but the agent list;
  in the agent list only the first agent of type main changes, and only when it is
  completed: it becomes active and loses its completion timestamp. On an active session
  only the last activity changes. A second call changes nothing but the last activity.
\<close>

theorem reactivateIfEnded_spec:
  "(s_status (session ss) = SessionEnded \<longrightarrow>
      reactivateIfEnded ss ts =
        ss\<lparr>session := (session ss)\<lparr>s_status := SessionActive, s_endedAt := None\<rparr>,
           agents := agents (reactivateIfEnded ss ts), lastActivity := ts\<rparr> \<and>
      (\<forall>pre m post.
         agents ss = pre @ m # post \<and> (\<forall>a\<in>set pre. a_type a \<noteq> Main) \<and> a_type m = Main \<longrightarrow>
         agents (reactivateIfEnded ss ts) =
           pre @ (if a_status m = AgentCompleted
                  then m\<lparr>a_status := AgentActive, a_completedAt := None\<rparr> else m) # post) \<and>
      ((\<forall>a\<in>set (agents ss). a_type a \<noteq> Main) \<longrightarrow>
         agents (reactivateIfEnded ss ts) = agents ss)) \<and>
   (s_status (session ss) = SessionActive \<longrightarrow> reactivateIfEnded ss ts = ss\<lparr>lastActivity := ts\<rparr>) \<and>
   reactivateIfEnded (reactivateIfEnded ss ts) ts' = (reactivateIfEnded ss ts)\<lparr>lastActivity := ts'\<rparr>"
  by (auto simp: reactivateIfEnded_def modifyFirst_split modifyFirst_none isMain_def
      reviveAgent_def)

theorem reactivateIfEnded_spec_witness:
  "s_status (session demoEnded) = SessionEnded \<and>
   agents demoEnded = [] @ demoAgent 0 Main AgentCompleted # [] \<and>
   a_type (demoAgent 0 Main AgentCompleted) = Main \<and>
   s_status (session (reactivateIfEnded demoEnded (Some 20))) = SessionActive \<and>
   s_endedAt (session (reactivateIfEnded demoEnded (Some 20))) = None \<and>
   lastActivity (reactivateIfEnded demoEnded (Some 20)) = Some 20 \<and>
   agents (reactivateIfEnded demoEnded (Some 20)) =
     [(demoAgent 0 Main AgentCompleted)\<lparr>a_status := AgentActive, a_completedAt := None\<rparr>] \<and>
   s_status (session (reactivateIfEnded demoEnded (Some 20))) = SessionActive \<and>
   reactivateIfEnded (reactivateIfEnded demoEnded (Some 20)) (Some 30) =
     (reactivateIfEnded demoEnded (Some 20))\<lparr>lastActivity := Some 30\<rparr>"
  using reactivateIfEnded_spec [of demoEnded "Some 20" "Some 30"]
    reactivateIfEnded_spec [of "reactivateIfEnded demoEnded (Some 20)" "Some 30" "Some 30"]
  by (simp add: demoEnded_def demoAgent_def createSessionState_def reactivateIfEnded_def
      isMain_def reviveAgent_def)

subsection \<open>Tool calls recorded by a pre event\<close>

lemma map_modifyFirst: "(\<And>x. g (f x) = g x) \<Longrightarrow> map g (modifyFirst P f xs) = map g xs"
  by (induction xs) auto

lemma map_modifyLast: "(\<And>x. g (f x) = g x) \<Longrightarrow> map g (modifyLast P f xs) = map g xs"
  by (simp add: modifyLast_def rev_map [symmetric] map_modifyFirst)

lemma allCalls_append: "allCalls (as @ bs) = allCalls as @ allCalls bs"
  by (simp add: allCalls_def)

lemma toolCalls_reactivate:
  "map toolCalls (agents (reactivateIfEnded ss ts)) = map toolCalls (agents ss)"
  by (simp add: reactivateIfEnded_def map_modifyFirst reviveAgent_def)

lemma toolCalls_main:
  "getOrCreateMainAgent v ss c u = (ss', c', u', m) \<Longrightarrow> allCalls (agents ss') = allCalls (agents ss)"
  by (auto simp: getOrCreateMainAgent_def allCalls_def Let_def split: option.splits prod.splits)

lemma toolCalls_captureModel:
  "map toolCalls (agents (captureModel m ss)) = map toolCalls (agents ss)"
  by (simp add: captureModel_def map_modifyFirst split: option.splits)

lemma agents_addTimelineEvent [simp]: "agents (addTimelineEvent v ss ts i d) = agents ss"
  by (simp add: addTimelineEvent_def Let_def)

lemma pending_addTimelineEvent [simp]:
  "pendingToolCalls (addTimelineEvent v ss ts i d) = pendingToolCalls ss"
  by (simp add: addTimelineEvent_def Let_def)

lemma toolCalls_spawnOnTask:
  "spawnOnTask v e m ss c = (ss', c') \<Longrightarrow> allCalls (agents ss') = allCalls (agents ss)"
  by (auto simp: spawnOnTask_def spawnSubagent_def allCalls_def Let_def split: if_splits)

lemma lastIndexWhere_less: "lastIndexWhere P xs = Some i \<Longrightarrow> i < length xs"
  by (induction xs arbitrary: i) (auto split: option.splits if_splits)

lemma findActiveAgent_less: "findActiveAgent as = Some i \<Longrightarrow> i < length as"
  by (auto simp: findActiveAgent_def split: option.splits if_splits dest: lastIndexWhere_less)

lemma findActiveAgent_None: "findActiveAgent as = None \<longleftrightarrow> as = []"
  by (auto simp: findActiveAgent_def split: option.splits)

lemma mset_allCalls_update:
  "i < length as \<Longrightarrow>
   mset (allCalls (as[i := pushToolCall tc (as ! i)])) = mset (allCalls as) + {#tc#}"
  by (simp add: allCalls_def upd_conv_take_nth_drop pushToolCall_def)
     (subst (3) id_take_nth_drop [of i as], simp_all)

lemma agents_trackFileAccess:
  "trackFileAccess ss T inp ts = Some ss' \<Longrightarrow>
   agents ss' = agents ss \<and> pendingToolCalls ss' = pendingToolCalls ss"
  by (auto simp: trackFileAccess_def Let_def split: option.splits if_splits)

lemma recordToolStart_Returned:
  assumes "recordToolStart v e ss = (Returned, ss')" and "agents ss \<noteq> []"
  shows "\<exists>summary. summarizeInput (builtins v) (tool_name e) (tool_input e) = Some summary \<and>
           mset (allCalls (agents ss')) = mset (allCalls (agents ss)) + {#newToolCall v e summary#} \<and>
           map_of (pendingToolCalls ss') (tool_name e) = Some (now_tc v, rnd_tc v)"
  using assms
  by (auto simp: recordToolStart_def Let_def findActiveAgent_None mset_allCalls_update
      AList.update_conv' newToolCall_def
      split: option.splits dest!: agents_trackFileAccess findActiveAgent_less)

lemma map_of_putSession:
  "map_of (sessions (putSession k ss st)) k' = (if k' = k then Some ss else map_of (sessions st) k')"
  by (simp add: putSession_def AList.update_conv')

lemma agents_getOrCreateSession:
  "agents (getOrCreateSession k ts src st) = sessionAgents st k"
  by (simp add: getOrCreateSession_def sessionAgents_def createSessionState_def Let_def
      split: option.splits)

lemma agents_main_nonempty:
  "getOrCreateMainAgent v ss c u = (ss', c', u', m) \<Longrightarrow> agents ss' \<noteq> []"
  by (auto simp: getOrCreateMainAgent_def Let_def split: option.splits prod.splits
      dest: find_Some_iff [THEN iffD1])

lemma agents_captureModel_nonempty: "agents (captureModel m ss) = [] \<longleftrightarrow> agents ss = []"
  using toolCalls_captureModel [of m ss] by (metis map_is_Nil_conv)

lemma agents_spawnOnTask_nonempty:
  "spawnOnTask v e m ss c = (ss', c') \<Longrightarrow> agents ss \<noteq> [] \<Longrightarrow> agents ss' \<noteq> []"
  by (auto simp: spawnOnTask_def spawnSubagent_def Let_def split: if_splits)

lemma allCalls_cong: "map toolCalls as = map toolCalls bs \<Longrightarrow> allCalls as = allCalls bs"
  by (simp add: allCalls_def)

lemma case_pre_Returned:
  assumes "case_pre v e st = (Returned, st')"
  shows "\<exists>summary ss'.
           summarizeInput (builtins v) (tool_name e) (tool_input e) = Some summary \<and>
           map_of (sessions st') (sessionIdOr ''unknown'' e) = Some ss' \<and>
           mset (allCalls (agents ss')) =
             mset (sessionCalls st (sessionIdOr ''unknown'' e)) + {#newToolCall v e summary#} \<and>
           map_of (pendingToolCalls ss') (tool_name e) = Some (now_tc v, rnd_tc v)"
proof -
  define sid where "sid = sessionIdOr ''unknown'' e"
  define ss1 where
    "ss1 = reactivateIfEnded (getOrCreateSession sid (timestamp e) (detectSource e) st) (timestamp e)"
  obtain ss2 c2 u2 m where main: "getOrCreateMainAgent v ss1 (agentIdCounter st) (usedNames st) = (ss2, c2, u2, m)"
    by (metis prod_cases4)
  obtain ss4 c4 where spawn: "spawnOnTask v e m (captureModel (model e) ss2) c2 = (ss4, c4)"
    by (metis surj_pair)
  obtain out ss5 where rec: "recordToolStart v e ss4 = (out, ss5)"
    by (metis surj_pair)
  from assms main spawn rec have out: "out = Returned"
    and st': "st' = putSession sid ss5 (st\<lparr>agentIdCounter := c4, usedNames := u2\<rparr>)"
    by (simp_all add: case_pre_def Let_def sid_def ss1_def)
  have calls1: "allCalls (agents ss1) = sessionCalls st sid"
    unfolding ss1_def sessionCalls_def
    by (rule trans [OF allCalls_cong [OF toolCalls_reactivate]])
       (simp add: agents_getOrCreateSession)
  have calls4: "allCalls (agents ss4) = sessionCalls st sid"
    using toolCalls_spawnOnTask [OF spawn] allCalls_cong [OF toolCalls_captureModel [of "model e" ss2]]
      toolCalls_main [OF main] calls1 by simp
  have ne: "agents ss4 \<noteq> []"
    using agents_spawnOnTask_nonempty [OF spawn] agents_main_nonempty [OF main]
    by (simp add: agents_captureModel_nonempty)
  from recordToolStart_Returned [OF rec [unfolded out] ne] calls4 st'
  show ?thesis
    by (auto simp: map_of_putSession sid_def)
qed

lemma case_pre_other:
  "case_pre v e st = (out, st') \<Longrightarrow> k \<noteq> sessionIdOr ''unknown'' e \<Longrightarrow>
   map_of (sessions st') k = map_of (sessions st) k"
  by (auto simp: case_pre_def Let_def map_of_putSession putSession_def AList.update_conv' split: prod.splits)

lemma length_filter_mset: "length (filter P xs) = size (filter_mset P (mset xs))"
  by (metis mset_filter size_mset)

lemma sessionCalls_Some: "map_of (sessions st) k = Some ss \<Longrightarrow> sessionCalls st k = allCalls (agents ss)"
  by (simp add: sessionCalls_def sessionAgents_def)

lemma pre_executing:
  assumes "case_pre v e st = (Returned, st')" 
  shows "length (executingCalls st' (sessionIdOr ''unknown'' e) (tool_name e)) =
         length (executingCalls st (sessionIdOr ''unknown'' e) (tool_name e)) + 1"
proof -
  from case_pre_Returned [OF assms] obtain summary ss' where
    s: "map_of (sessions st') (sessionIdOr ''unknown'' e) = Some ss'" and
    m: "mset (allCalls (agents ss')) =
          mset (sessionCalls st (sessionIdOr ''unknown'' e)) + {#newToolCall v e summary#}"
    by blast
  show ?thesis
    unfolding executingCalls_def length_filter_mset sessionCalls_Some [OF s] m
    by (simp add: newToolCall_def)
qed

text \<open>
  Claim C1, as the code has it. The pending map of a session holds one call id for each
  tool name, the id of the latest \<^verbatim>\<open>pre\<close>; the tool-call records are not limited. Every
  \<^verbatim>\<open>pre\<close> event that returns adds one record in the state executing and leaves the others
  as they are: after two \<^verbatim>\<open>pre\<close> events of the tool \<open>T\<close> in the session \<open>k\<close> the session
  holds two more executing records of \<open>T\<close>, and the marker of \<open>T\<close> is the id of the second.
\<close>

theorem pre_twice_two_executing:
  assumes "phase e1 = ''pre''" and "phase e2 = ''pre''"
    and "sessionIdOr ''unknown'' e1 = k" and "sessionIdOr ''unknown'' e2 = k"
    and "tool_name e1 = T" and "tool_name e2 = T"
    and "processEvent v1 e1 st = (Returned, st1)"
    and "processEvent v2 e2 st1 = (Returned, st2)"
  shows "length (executingCalls st2 k T) = length (executingCalls st k T) + 2 \<and>
         (\<exists>ss. map_of (sessions st2) k = Some ss \<and>
               map_of (pendingToolCalls ss) T = Some (now_tc v2, rnd_tc v2))"
proof -
  from assms have p1: "case_pre v1 e1 st = (Returned, st1)"
    and p2: "case_pre v2 e2 st1 = (Returned, st2)"
    by (simp_all add: processEvent_def)
  from pre_executing [OF p1] pre_executing [OF p2] assms(3-6)
  have "length (executingCalls st2 k T) = length (executingCalls st k T) + 2" by simp
  moreover from case_pre_Returned [OF p2] assms(4,6)
  have "\<exists>ss. map_of (sessions st2) k = Some ss \<and>
             map_of (pendingToolCalls ss) T = Some (now_tc v2, rnd_tc v2)" by blast
  ultimately show ?thesis by blast
qed

theorem pre_twice_two_executing_witness:
  "processEvent (demoEnv 6 ''bbbb'') (preEv (Some 2) ''Read'' readInput) demoStarted =
     (Returned, run [Event (demoEnv 6 ''bbbb'') (preEv (Some 2) ''Read'' readInput)] demoStarted) \<and>
   processEvent (demoEnv 7 ''cccc'') (preEv (Some 3) ''Read'' readInput)
     (run [Event (demoEnv 6 ''bbbb'') (preEv (Some 2) ''Read'' readInput)] demoStarted) =
     (Returned, run [Event (demoEnv 6 ''bbbb'') (preEv (Some 2) ''Read'' readInput),
                     Event (demoEnv 7 ''cccc'') (preEv (Some 3) ''Read'' readInput)] demoStarted) \<and>
   length (executingCalls
     (run [Event (demoEnv 6 ''bbbb'') (preEv (Some 2) ''Read'' readInput),
           Event (demoEnv 7 ''cccc'') (preEv (Some 3) ''Read'' readInput)] demoStarted)
     ''s1'' ''Read'') = length (executingCalls demoStarted ''s1'' ''Read'') + 2"
proof -
  let ?e1 = "preEv (Some 2) ''Read'' readInput" and ?e2 = "preEv (Some 3) ''Read'' readInput"
  let ?v1 = "demoEnv 6 ''bbbb''" and ?v2 = "demoEnv 7 ''cccc''"
  let ?st1 = "run [Event ?v1 ?e1] demoStarted"
  let ?st2 = "run [Event ?v1 ?e1, Event ?v2 ?e2] demoStarted"
  have ph: "phase ?e1 = ''pre''" "phase ?e2 = ''pre''"
    and k: "sessionIdOr ''unknown'' ?e1 = ''s1''" "sessionIdOr ''unknown'' ?e2 = ''s1''"
    and T: "tool_name ?e1 = ''Read''" "tool_name ?e2 = ''Read''"
    by (simp_all add: preEv_def demoEvent_def sessionIdOr_def)
  have "fst (processEvent ?v1 ?e1 demoStarted) = Returned" by code_simp
  then have r1: "processEvent ?v1 ?e1 demoStarted = (Returned, ?st1)"
    by (simp add: run_def prod_eq_iff)
  have "fst (processEvent ?v2 ?e2 ?st1) = Returned" by code_simp
  then have r2: "processEvent ?v2 ?e2 ?st1 = (Returned, ?st2)"
    by (simp add: run_def prod_eq_iff)
  from pre_twice_two_executing [OF ph k T r1 r2] r1 r2 show ?thesis by blast
qed

theorem pre_twice_counterexample:
  "\<not> length (executingCalls
        (run [Event (demoEnv 6 ''bbbb'') (preEv (Some 2) ''Read'' readInput),
              Event (demoEnv 7 ''cccc'') (preEv (Some 3) ''Read'' readInput)] demoStarted)
        ''s1'' ''Read'') \<le> 1"
  by code_simp

subsection \<open>The parent of a spawned subagent\<close>

lemma map_comp_cong: "map f as = map f bs \<Longrightarrow> map (\<lambda>a. g (f a)) as = map (\<lambda>a. g (f a)) bs"
proof -
  assume h: "map f as = map f bs"
  have "map (\<lambda>a. g (f a)) as = map g (map f as)" by simp
  also have "\<dots> = map g (map f bs)" by (simp only: h)
  finally show ?thesis by simp
qed

lemma core_ids: "map agentCore as = map agentCore bs \<Longrightarrow> map a_id as = map a_id bs"
  using map_comp_cong [of agentCore as bs fst] by (simp add: agentCore_def)

lemma mainId_cong:
  "map agentCore as = map agentCore bs \<Longrightarrow>
   map_option a_id (find isMain as) = map_option a_id (find isMain bs)"
proof (induction as arbitrary: bs)
  case Nil
  then show ?case by simp
next
  case (Cons a as)
  then obtain b bs' where bs: "bs = b # bs'" by (cases bs) auto
  with Cons show ?case by (simp add: isMain_def agentCore_def)
qed

lemma find_append_none: "find P xs = None \<Longrightarrow> find P (xs @ [x]) = (if P x then Some x else None)"
  by (induction xs) (auto split: if_splits)

lemma main_found:
  assumes "getOrCreateMainAgent v ss c u = (ss', c', u', m)"
  shows "map_option a_id (find isMain (agents ss')) = Some m \<and>
         prefix (agents ss) (agents ss') \<and> session ss' = session ss \<and>
         lastActivity ss' = lastActivity ss \<and> statsStartedAt ss' = statsStartedAt ss"
proof (cases "find isMain (agents ss)")
  case None
  with assms show ?thesis
    by (auto simp: getOrCreateMainAgent_def Let_def isMain_def find_append_none split: prod.splits)
next
  case (Some a)
  with assms show ?thesis by (auto simp: getOrCreateMainAgent_def)
qed

lemma captureModel_core:
  "map agentCore (agents (captureModel m ss)) = map agentCore (agents ss) \<and>
   s_startedAt (session (captureModel m ss)) = s_startedAt (session ss) \<and>
   lastActivity (captureModel m ss) = lastActivity ss \<and>
   statsStartedAt (captureModel m ss) = statsStartedAt ss"
  by (simp add: captureModel_def map_modifyFirst agentCore_def split: option.splits)

lemma core_update:
  "map agentCore (as[i := pushToolCall tc (as ! i)]) = map agentCore as"
proof (cases "i < length as")
  case True
  then show ?thesis
    by (intro nth_equalityI) (auto simp: nth_list_update agentCore_def pushToolCall_def)
next
  case False
  then show ?thesis by (simp add: list_update_beyond)
qed

lemma frame_trackFileAccess:
  "trackFileAccess s T inp ts = Some s' \<Longrightarrow>
   session s' = session s \<and> lastActivity s' = lastActivity s \<and>
   statsStartedAt s' = statsStartedAt s"
  by (auto simp: trackFileAccess_def Let_def split: option.splits if_splits)

lemma recordToolStart_core:
  assumes "recordToolStart v e ss = (out, ss')"
  shows "map agentCore (agents ss') = map agentCore (agents ss) \<and>
         session ss' = session ss \<and> lastActivity ss' = lastActivity ss \<and>
         statsStartedAt ss' = statsStartedAt ss"
proof (cases "findActiveAgent (agents ss)")
  case None
  with assms show ?thesis by (simp add: recordToolStart_def)
next
  case (Some i)
  show ?thesis
  proof (cases "summarizeInput (builtins v) (tool_name e) (tool_input e)")
    case None
    with Some assms show ?thesis by (simp add: recordToolStart_def)
  next
    case (Some summary)
    define ss1 where "ss1 = ss\<lparr>agents := (agents ss)[i := pushToolCall (newToolCall v e summary) (agents ss ! i)],
                           stats := (stats ss)\<lparr>c_toolCalls := c_toolCalls (stats ss) + 1,
                              c_estimatedTokens := c_estimatedTokens (stats ss)
                                + estimateTokens (builtins v) (tool_input e)\<rparr>,
                           pendingToolCalls :=
                              AList.update (tool_name e) (tc_id (newToolCall v e summary)) (pendingToolCalls ss)\<rparr>"
    have ss1: "map agentCore (agents ss1) = map agentCore (agents ss) \<and>
         session ss1 = session ss \<and> lastActivity ss1 = lastActivity ss \<and>
         statsStartedAt ss1 = statsStartedAt ss"
      by (simp add: ss1_def core_update)
    show ?thesis
    proof (cases "trackFileAccess ss1 (tool_name e) (tool_input e) (timestamp e)")
      case None
      with Some \<open>findActiveAgent (agents ss) = Some i\<close> assms ss1 show ?thesis
        by (auto simp: recordToolStart_def Let_def ss1_def)
    next
      case (Some ss2)
      from agents_trackFileAccess [OF Some] frame_trackFileAccess [OF Some] ss1
      have "map agentCore (agents ss2) = map agentCore (agents ss) \<and>
         session ss2 = session ss \<and> lastActivity ss2 = lastActivity ss \<and>
         statsStartedAt ss2 = statsStartedAt ss" by simp
      with Some \<open>summarizeInput (builtins v) (tool_name e) (tool_input e) = Some summary\<close>
        \<open>findActiveAgent (agents ss) = Some i\<close> assms show ?thesis
        by (auto simp: recordToolStart_def Let_def ss1_def addTimelineEvent_def)
    qed
  qed
qed

lemma spawnOnTask_core:
  assumes "spawnOnTask v e m ss c = (ss', c')"
  shows "session ss' = session ss \<and> lastActivity ss' = lastActivity ss \<and>
         statsStartedAt ss' = statsStartedAt ss \<and> prefix (agents ss) (agents ss') \<and>
         (tool_name e = ''Task'' \<longrightarrow>
            (\<exists>sub. agents ss' = agents ss @ [sub] \<and> a_type sub = Subagent \<and>
                   a_status sub = AgentActive \<and> parentId sub = Some m \<and> a_id sub = c))"
  using assms
  by (auto simp: spawnOnTask_def spawnSubagent_def Let_def addTimelineEvent_def split: if_splits)

lemma reactivate_core:
  "map a_id (agents (reactivateIfEnded ss ts)) = map a_id (agents ss) \<and>
   lastActivity (reactivateIfEnded ss ts) = ts \<and>
   s_startedAt (session (reactivateIfEnded ss ts)) = s_startedAt (session ss) \<and>
   statsStartedAt (reactivateIfEnded ss ts) = statsStartedAt ss"
  by (simp add: reactivateIfEnded_def map_modifyFirst reviveAgent_def)

lemma getOrCreateSession_new:
  "map_of (sessions st) k = None \<Longrightarrow>
   s_startedAt (session (getOrCreateSession k ts src st)) = ts \<and>
   statsStartedAt (getOrCreateSession k ts src st) = ts \<and>
   lastActivity (getOrCreateSession k ts src st) = ts"
  by (simp add: getOrCreateSession_def createSessionState_def Let_def)

text \<open>The stages of \<^verbatim>\<open>case 'pre'\<close>, named.\<close>

lemma case_pre_stages:
  assumes "case_pre v e st = (out, st')"
  obtains ss1 ss2 c2 u2 m ss4 c4 ss5 where
    "ss1 = reactivateIfEnded
       (getOrCreateSession (sessionIdOr ''unknown'' e) (timestamp e) (detectSource e) st)
       (timestamp e)"
    "getOrCreateMainAgent v ss1 (agentIdCounter st) (usedNames st) = (ss2, c2, u2, m)"
    "spawnOnTask v e m (captureModel (model e) ss2) c2 = (ss4, c4)"
    "recordToolStart v e ss4 = (out, ss5)"
    "st' = putSession (sessionIdOr ''unknown'' e) ss5 (st\<lparr>agentIdCounter := c4, usedNames := u2\<rparr>)"
proof -
  define ss1 where "ss1 = reactivateIfEnded
       (getOrCreateSession (sessionIdOr ''unknown'' e) (timestamp e) (detectSource e) st)
       (timestamp e)"
  obtain ss2 c2 u2 m where main:
    "getOrCreateMainAgent v ss1 (agentIdCounter st) (usedNames st) = (ss2, c2, u2, m)"
    by (metis prod_cases4)
  obtain ss4 c4 where spawn: "spawnOnTask v e m (captureModel (model e) ss2) c2 = (ss4, c4)"
    by (metis surj_pair)
  obtain out' ss5 where rec: "recordToolStart v e ss4 = (out', ss5)"
    by (metis surj_pair)
  from assms main spawn rec have "out' = out"
    and "st' = putSession (sessionIdOr ''unknown'' e) ss5 (st\<lparr>agentIdCounter := c4, usedNames := u2\<rparr>)"
    by (simp_all add: case_pre_def Let_def ss1_def)
  with that [OF ss1_def main spawn] rec show ?thesis by simp
qed

lemma find_append_some: "find P xs = Some y \<Longrightarrow> find P (xs @ zs) = Some y"
  by (induction xs) (auto split: if_splits)

text \<open>
  Claim C2, as the code has it. A \<^verbatim>\<open>pre\<close> event of the tool \<^verbatim>\<open>Task\<close> appends a subagent
  whose parent is the main agent of the session (the first agent of type main, created
  by the same event when the session has none), whichever agent is active at that time.
  The subagent is the last agent of the session afterwards, it is active, and the agents
  the session had before keep their places.
\<close>

theorem task_parent_is_main:
  assumes "phase e = ''pre''" and "tool_name e = ''Task''"
    and "processEvent v e st = (out, st')"
  shows "\<exists>ss m. map_of (sessions st') (sessionIdOr ''unknown'' e) = Some ss \<and>
           agents ss \<noteq> [] \<and> find isMain (agents ss) = Some m \<and>
           a_type (last (agents ss)) = Subagent \<and>
           a_status (last (agents ss)) = AgentActive \<and>
           parentId (last (agents ss)) = Some (a_id m) \<and>
           strict_prefix (map a_id (sessionAgents st (sessionIdOr ''unknown'' e)))
             (map a_id (agents ss))"
proof -
  from assms have "case_pre v e st = (out, st')" by (simp add: processEvent_def)
  then obtain ss1 ss2 c2 u2 m ss4 c4 ss5 where
    ss1: "ss1 = reactivateIfEnded
       (getOrCreateSession (sessionIdOr ''unknown'' e) (timestamp e) (detectSource e) st)
       (timestamp e)" and
    main: "getOrCreateMainAgent v ss1 (agentIdCounter st) (usedNames st) = (ss2, c2, u2, m)" and
    spawn: "spawnOnTask v e m (captureModel (model e) ss2) c2 = (ss4, c4)" and
    rec: "recordToolStart v e ss4 = (out, ss5)" and
    st': "st' = putSession (sessionIdOr ''unknown'' e) ss5 (st\<lparr>agentIdCounter := c4, usedNames := u2\<rparr>)"
    by (rule case_pre_stages)
  let ?ss3 = "captureModel (model e) ss2"
  from main_found [OF main] have m2: "map_option a_id (find isMain (agents ss2)) = Some m"
    and p12: "prefix (agents ss1) (agents ss2)" by simp_all
  from captureModel_core [of "model e" ss2]
  have c3: "map agentCore (agents ?ss3) = map agentCore (agents ss2)" by simp
  from mainId_cong [OF c3] m2 have m3: "map_option a_id (find isMain (agents ?ss3)) = Some m"
    by simp
  from spawnOnTask_core [OF spawn] assms(2) obtain sub where
    a4: "agents ss4 = agents ?ss3 @ [sub]" and sub: "a_type sub = Subagent"
    "a_status sub = AgentActive" "parentId sub = Some m" by blast
  from m3 a4 have m4: "map_option a_id (find isMain (agents ss4)) = Some m"
    by (auto dest: find_append_some)
  from recordToolStart_core [OF rec]
  have c5: "map agentCore (agents ss5) = map agentCore (agents ss4)" by simp
  from mainId_cong [OF c5] m4 obtain m' where m5: "find isMain (agents ss5) = Some m'" "a_id m' = m"
    by auto
  from c5 a4 have ne: "agents ss5 \<noteq> []" by auto
  have "agentCore (last (agents ss5)) = last (map agentCore (agents ss5))"
    using ne by (simp add: last_map)
  also have "\<dots> = agentCore sub" by (simp add: c5 a4)
  finally have l: "agentCore (last (agents ss5)) = agentCore sub" .
  have ids1: "map a_id (agents ss1) = map a_id (sessionAgents st (sessionIdOr ''unknown'' e))"
    by (simp add: ss1 reactivate_core agents_getOrCreateSession)
  have ids5: "map a_id (agents ss5) = map a_id (agents ss2) @ [a_id sub]"
    using core_ids [OF c5] core_ids [OF c3] a4 by simp
  from p12 have "prefix (map a_id (agents ss1)) (map a_id (agents ss2))"
    by (rule map_mono_prefix)
  then have sp: "strict_prefix (map a_id (sessionAgents st (sessionIdOr ''unknown'' e)))
                   (map a_id (agents ss5))"
    unfolding ids1 ids5 by (auto simp: strict_prefix_def prefix_def)
  from l sub m5 ne sp st' show ?thesis
    by (auto simp: map_of_putSession agentCore_def)
qed

theorem task_parent_is_main_witness:
  "phase (preEv (Some 3) ''Task'' (taskInput ''deeper'')) = ''pre'' \<and>
   tool_name (preEv (Some 3) ''Task'' (taskInput ''deeper'')) = ''Task'' \<and>
   (\<exists>ss m. map_of (sessions (run [Event (demoEnv 7 ''cccc'')
                (preEv (Some 3) ''Task'' (taskInput ''deeper''))] demoDelegated))
              (sessionIdOr ''unknown'' (preEv (Some 3) ''Task'' (taskInput ''deeper''))) = Some ss \<and>
           agents ss \<noteq> [] \<and> find isMain (agents ss) = Some m \<and>
           a_type (last (agents ss)) = Subagent \<and>
           a_status (last (agents ss)) = AgentActive \<and>
           parentId (last (agents ss)) = Some (a_id m) \<and>
           strict_prefix
             (map a_id (sessionAgents demoDelegated
                (sessionIdOr ''unknown'' (preEv (Some 3) ''Task'' (taskInput ''deeper'')))))
             (map a_id (agents ss)))"
proof -
  let ?e = "preEv (Some 3) ''Task'' (taskInput ''deeper'')"
  have ph: "phase ?e = ''pre''" and tn: "tool_name ?e = ''Task''"
    by (simp_all add: preEv_def demoEvent_def)
  have pe: "processEvent (demoEnv 7 ''cccc'') ?e demoDelegated =
      (fst (processEvent (demoEnv 7 ''cccc'') ?e demoDelegated),
       run [Event (demoEnv 7 ''cccc'') ?e] demoDelegated)"
    by (simp add: run_def)
  from task_parent_is_main [OF ph tn pe] ph tn show ?thesis by blast
qed

theorem task_parent_counterexample:
  "activeAgentId demoDelegated ''s1'' = Some 1 \<and>
   parentId (last (sessionAgents
     (run [Event (demoEnv 7 ''cccc'') (preEv (Some 3) ''Task'' (taskInput ''deeper''))]
        demoDelegated) ''s1'')) = Some 0"
  by code_simp

subsection \<open>Timestamps\<close>

lemma case_session_start_stages:
  assumes "case_session_start v e st = (out, st')"
  obtains ss' c u m where
    "getOrCreateMainAgent v
       (getOrCreateSession (sessionIdOr ''unknown'' e) (timestamp e) (detectSource e)
          (resetExisting (sessionIdOr ''unknown'' e) st))
       (agentIdCounter st) (usedNames st) = (ss', c, u, m)"
    "out = Returned"
    "st' = putSession (sessionIdOr ''unknown'' e) ss'
             ((resetExisting (sessionIdOr ''unknown'' e) st)\<lparr>agentIdCounter := c, usedNames := u\<rparr>)"
proof -
  have g: "agentIdCounter (resetExisting k st) = agentIdCounter st"
    "usedNames (resetExisting k st) = usedNames st" for k
    by (simp_all add: resetExisting_def split: option.splits)
  obtain ss' c u m where main: "getOrCreateMainAgent v
       (getOrCreateSession (sessionIdOr ''unknown'' e) (timestamp e) (detectSource e)
          (resetExisting (sessionIdOr ''unknown'' e) st))
       (agentIdCounter st) (usedNames st) = (ss', c, u, m)"
    by (metis prod_cases4)
  with assms g have "out = Returned"
    "st' = putSession (sessionIdOr ''unknown'' e) ss'
             ((resetExisting (sessionIdOr ''unknown'' e) st)\<lparr>agentIdCounter := c, usedNames := u\<rparr>)"
    by (auto simp: case_session_start_def Let_def)
  with that main show ?thesis by blast
qed

lemma map_of_resetExisting:
  "map_of (sessions (resetExisting k st)) k' = (if k' = k then None else map_of (sessions st) k')"
  by (simp add: resetExisting_def AList.delete_conv' split: option.splits)

lemma case_session_start_times:
  assumes "case_session_start v e st = (out, st')"
  shows "\<exists>ss. map_of (sessions st') (sessionIdOr ''unknown'' e) = Some ss \<and>
           s_startedAt (session ss) = timestamp e \<and> statsStartedAt ss = timestamp e \<and>
           lastActivity ss = timestamp e"
proof -
  from assms obtain ss' c u m where main: "getOrCreateMainAgent v
       (getOrCreateSession (sessionIdOr ''unknown'' e) (timestamp e) (detectSource e)
          (resetExisting (sessionIdOr ''unknown'' e) st))
       (agentIdCounter st) (usedNames st) = (ss', c, u, m)"
    and st': "st' = putSession (sessionIdOr ''unknown'' e) ss'
             ((resetExisting (sessionIdOr ''unknown'' e) st)\<lparr>agentIdCounter := c, usedNames := u\<rparr>)"
    by (rule case_session_start_stages)
  have none: "map_of (sessions (resetExisting (sessionIdOr ''unknown'' e) st)) (sessionIdOr ''unknown'' e) = None"
    by (simp add: map_of_resetExisting)
  from main_found [OF main] getOrCreateSession_new [OF none, of "timestamp e" "detectSource e"] st'
  show ?thesis
    by (simp add: map_of_putSession)
qed

subsection \<open>The round trip of a tool call\<close>






lemma toolCalls_finishToolEnd:
  "map toolCalls (agents (finishToolEnd v e i out ss)) = map toolCalls (agents ss)"
  by (simp add: finishToolEnd_def Let_def map_modifyLast completeAgent_def)



lemma case_post_stages:
  assumes "case_post v e st = (out, st')"
  obtains ss2 where
    "recordToolEnd v e (reactivateIfEnded
       (getOrCreateSession (sessionIdOr ''unknown'' e) (timestamp e) (detectSource e) st)
       (timestamp e)) = (out, ss2)"
    "st' = putSession (sessionIdOr ''unknown'' e) ss2 st"
  using assms by (auto simp: case_post_def Let_def split: prod.splits)


lemma calls_prepared:
  "allCalls (agents (reactivateIfEnded (getOrCreateSession k ts src st) ts)) = sessionCalls st k"
  unfolding sessionCalls_def
  by (rule trans [OF allCalls_cong [OF toolCalls_reactivate]]) (simp add: agents_getOrCreateSession)

lemma toolCalls_prepared:
  "map toolCalls (agents (reactivateIfEnded (getOrCreateSession k ts src st) ts)) =
   map toolCalls (sessionAgents st k)"
  by (simp add: toolCalls_reactivate agents_getOrCreateSession)


subsection \<open>The sweep on a map with distinct keys\<close>

lemma delete_append_notin:
  "k \<notin> fst ` set pre \<Longrightarrow> AList.delete k (pre @ xs) = pre @ AList.delete k xs"
  by (induction pre) (auto simp: AList.delete_eq)

lemma delete_notin: "k \<notin> fst ` set xs \<Longrightarrow> AList.delete k xs = xs"
  by (induction xs) (auto simp: AList.delete_eq)

lemma update_append_notin:
  "k \<notin> fst ` set pre \<Longrightarrow> AList.update k v (pre @ (k, s) # xs) = pre @ (k, v) # xs"
  by (induction pre) auto

text \<open>What the loop leaves of one entry, and what it adds to the carry-over and frees.\<close>

lemma pruneLoop:
  assumes "distinct (map fst (pre @ es))" and "sessions st = pre @ es"
  shows "fst (fold (pruneSession now stale) es (st, ch)) =
           st\<lparr>carryOverStats :=
                 fold (\<lambda>(k, s) c. if isExpired now s then addCounters c (stats s) else c) es
                   (carryOverStats st),
              usedNames :=
                 fold (\<lambda>(k, s) u. if isExpired now s \<or> isGhost now s
                                   then releaseNames (agents s) u else u) es (usedNames st),
              sessions := pre @
                 map (\<lambda>(k, s). if isStale now stale s then (k, endSession (Some now) s) else (k, s))
                   (filter (\<lambda>(k, s). \<not> isExpired now s \<and> \<not> isGhost now s) es)\<rparr>"
  using assms
proof (induction es arbitrary: st pre ch)
  case Nil
  then show ?case by simp
next
  case (Cons e es)
  obtain k s where e: "e = (k, s)" by (cases e)
  from Cons.prems e have kpre: "k \<notin> fst ` set pre" and kes: "k \<notin> fst ` set es"
    and d: "distinct (map fst (pre @ es))" by auto
  from Cons.prems e have d': "distinct (map fst ((pre @ [(k, x)]) @ es))" for x by auto
  consider (expired) "isExpired now s"
    | (ghost) "\<not> isExpired now s" "isGhost now s"
    | (stale) "\<not> isExpired now s" "\<not> isGhost now s" "isStale now stale s"
    | (kept) "\<not> isExpired now s" "\<not> isGhost now s" "\<not> isStale now stale s"
    by blast
  then show ?case
  proof cases
    case expired
    let ?st1 = "st\<lparr>carryOverStats := addCounters (carryOverStats st) (stats s),
              usedNames := releaseNames (agents s) (usedNames st),
              sessions := AList.delete k (sessions st)\<rparr>"
    have s1: "sessions ?st1 = pre @ es"
      using Cons.prems(2) e kpre kes by (simp add: delete_append_notin delete_notin)
    from expired e have "fold (pruneSession now stale) (e # es) (st, ch) =
        fold (pruneSession now stale) es (?st1, True)"
      by (simp add: pruneSession_def)
    with Cons.IH [OF d s1, of True] expired e show ?thesis by simp
  next
    case ghost
    let ?st1 = "st\<lparr>usedNames := releaseNames (agents s) (usedNames st),
              sessions := AList.delete k (sessions st)\<rparr>"
    have s1: "sessions ?st1 = pre @ es"
      using Cons.prems(2) e kpre kes by (simp add: delete_append_notin delete_notin)
    from ghost e have "fold (pruneSession now stale) (e # es) (st, ch) =
        fold (pruneSession now stale) es (?st1, True)"
      by (simp add: pruneSession_def)
    with Cons.IH [OF d s1, of True] ghost e show ?thesis by simp
  next
    case stale
    let ?st1 = "st\<lparr>sessions := AList.update k (endSession (Some now) s) (sessions st)\<rparr>"
    have s1: "sessions ?st1 = (pre @ [(k, endSession (Some now) s)]) @ es"
      using Cons.prems(2) e kpre by (simp add: update_append_notin)
    from stale e have "fold (pruneSession now stale) (e # es) (st, ch) =
        fold (pruneSession now stale) es (?st1, True)"
      by (simp add: pruneSession_def)
    with Cons.IH [OF d' s1, of True] stale e show ?thesis by simp
  next
    case kept
    have s1: "sessions st = (pre @ [(k, s)]) @ es"
      using Cons.prems(2) e by simp
    from kept e have "fold (pruneSession now stale) (e # es) (st, ch) =
        fold (pruneSession now stale) es (st, ch)"
      by (simp add: pruneSession_def)
    with Cons.IH [OF d' s1, of ch] kept e show ?thesis by simp
  qed
qed

lemma prune_state:
  assumes "distinct (map fst (sessions st))"
  shows "fst (pruneStaleAndEndedSessions now stale st) =
           st\<lparr>carryOverStats :=
                 fold (\<lambda>(k, s) c. if isExpired now s then addCounters c (stats s) else c)
                   (sessions st) (carryOverStats st),
              usedNames :=
                 fold (\<lambda>(k, s) u. if isExpired now s \<or> isGhost now s
                                   then releaseNames (agents s) u else u)
                   (sessions st) (usedNames st),
              sessions :=
                 map (\<lambda>(k, s). if isStale now stale s then (k, endSession (Some now) s) else (k, s))
                   (filter (\<lambda>(k, s). \<not> isExpired now s \<and> \<not> isGhost now s) (sessions st))\<rparr>"
  using pruneLoop [of "[]" "sessions st" st now stale False] assms
  by (simp add: pruneStaleAndEndedSessions_def)

subsection \<open>Ghost sessions\<close>

lemma fold_filter_skip:
  "(\<And>x. x \<in> set xs \<Longrightarrow> \<not> P x \<Longrightarrow> f x = id) \<Longrightarrow> fold f (filter P xs) c = fold f xs c"
  by (induction xs arbitrary: c) auto

lemma fold_id: "(\<And>x. x \<in> set xs \<Longrightarrow> f x = id) \<Longrightarrow> fold f xs c = c"
  by (induction xs arbitrary: c) auto

lemma ghost_not_expired: "isGhost now s \<Longrightarrow> \<not> isExpired now s"
  by (auto simp: isGhost_def isExpired_def)

lemma s_id_endSession [simp]: "s_id (session (endSession ts s)) = s_id (session s)"
  by (simp add: endSession_def)

lemma distinct_entry:
  "distinct (map fst es) \<Longrightarrow> map_of es k = Some s \<Longrightarrow> (k, s') \<in> set es \<Longrightarrow> s' = s"
  by (metis map_of_is_SomeI option.inject)

lemma ps_sessions_eq: "ps_sessions (getPublicState st) = map (\<lambda>(sid, ss). session ss) (sessions st)"
  by (simp add: getPublicState_def Let_def)

lemma keys_swept:
  "map fst (map (\<lambda>(k, s). if isStale now stale s then (k, endSession (Some now) s) else (k, s)) es)
     = map fst es"
  by (induction es) auto

text \<open>
  Claim C7, as the code has it. Let the session \<open>k\<close> be active, with no tool call counted,
  in a well-formed map. The sweep removes it from the map, and from the session list of
  the public state, exactly when its last activity carries a timestamp that is more than
  15000 milliseconds before the sweep. A session whose last activity carries no timestamp,
  because its last event had none, stays in the map as it is, however late the sweep. In
  both cases the carry-over is what the sweep of the map without \<open>k\<close> gives, and it is
  unchanged when the sweep finds no ended session past its retention window.
\<close>

theorem ghost_session_pruned:
  assumes wf: "wfSessions st"
    and "map_of (sessions st) k = Some s"
    and "s_status (session s) = SessionActive" and "c_toolCalls (stats s) = 0"
  shows "(map_of (sessions (fst (pruneStaleAndEndedSessions now stale st))) k = None
            \<longleftrightarrow> (\<exists>t. lastActivity s = Some t \<and> now - t > 15000)) \<and>
         (k \<notin> s_id ` set (ps_sessions (getPublicState
                 (fst (pruneStaleAndEndedSessions now stale st))))
            \<longleftrightarrow> (\<exists>t. lastActivity s = Some t \<and> now - t > 15000)) \<and>
         (lastActivity s = None \<longrightarrow>
            map_of (sessions (fst (pruneStaleAndEndedSessions now stale st))) k = Some s) \<and>
         carryOverStats (fst (pruneStaleAndEndedSessions now stale st)) =
           carryOverStats (fst (pruneStaleAndEndedSessions now stale
              (st\<lparr>sessions := AList.delete k (sessions st)\<rparr>))) \<and>
         ((\<forall>(k', s') \<in> set (sessions st). \<not> isExpired now s') \<longrightarrow>
            carryOverStats (fst (pruneStaleAndEndedSessions now stale st)) = carryOverStats st)"
proof -
  from wf have assms1: "distinct (map fst (sessions st))"
    and assms2: "\<forall>(k', s') \<in> set (sessions st). s_id (session s') = k'"
    by (simp_all add: wfSessions_def)
  let ?st' = "fst (pruneStaleAndEndedSessions now stale st)"
  let ?keep = "\<lambda>(k, s). \<not> isExpired now s \<and> \<not> isGhost now s"
  let ?end = "\<lambda>(k, s). if isStale now stale s then (k, endSession (Some now) s) else (k, s)"
  let ?fold = "\<lambda>(k, s) c. if isExpired now s then addCounters c (stats s) else c"
  let ?idle = "\<exists>t. lastActivity s = Some t \<and> now - t > 15000"
  from assms(3,4) have ghost: "isGhost now s \<longleftrightarrow> ?idle"
    by (auto simp: isGhost_def split: option.splits)
  from assms(3) have live: "\<not> isExpired now s" by (simp add: isExpired_def)
  have sess: "sessions ?st' = map ?end (filter ?keep (sessions st))"
    by (simp add: prune_state [OF assms1])
  have only: "s' = s" if "(k, s') \<in> set (sessions st)" for s'
    using distinct_entry [OF assms1 assms(2) that] .
  have mem: "(k, s) \<in> set (sessions st)" using assms(2) by (rule map_of_SomeD)
  have keys: "fst ` set (sessions ?st') = fst ` set (filter ?keep (sessions st))"
    unfolding sess by (force simp: image_iff split: if_splits)
  have ids: "s_id (session s') = k'" if "(k', s') \<in> set (sessions ?st')" for k' s'
    using that assms2 unfolding sess by (auto split: if_splits)
  have gone: "k \<notin> fst ` set (sessions ?st')" if ?idle
    unfolding keys using only ghost that by auto
  have kept: "k \<in> fst ` set (sessions ?st')" if "\<not> ?idle"
  proof -
    from mem live ghost that have "(k, s) \<in> set (filter ?keep (sessions st))" by simp
    then have "fst (k, s) \<in> fst ` set (filter ?keep (sessions st))" by (rule imageI)
    then show ?thesis unfolding keys by simp
  qed
  have a: "map_of (sessions ?st') k = None \<longleftrightarrow> ?idle"
    using gone kept by (auto simp: map_of_eq_None_iff)
  have b: "k \<notin> s_id ` set (ps_sessions (getPublicState ?st')) \<longleftrightarrow> ?idle"
  proof
    assume idle: ?idle
    show "k \<notin> s_id ` set (ps_sessions (getPublicState ?st'))"
    proof
      assume "k \<in> s_id ` set (ps_sessions (getPublicState ?st'))"
      then obtain k' s' where "(k', s') \<in> set (sessions ?st')" "s_id (session s') = k"
        unfolding ps_sessions_eq by auto
      with ids [of k' s'] gone [OF idle] show False by force
    qed
  next
    assume out: "k \<notin> s_id ` set (ps_sessions (getPublicState ?st'))"
    show ?idle
    proof (rule ccontr)
      assume "\<not> ?idle"
      from kept [OF this] obtain s' where in': "(k, s') \<in> set (sessions ?st')" by auto
      from ids [OF this] have "s_id (session s') = k" .
      with in' have "k \<in> s_id ` set (ps_sessions (getPublicState ?st'))"
        unfolding ps_sessions_eq by force
      with out show False by contradiction
    qed
  qed
  have e: "map_of (sessions ?st') k = Some s" if none: "lastActivity s = None"
  proof -
    from none have "\<not> isStale now stale s" "\<not> isGhost now s"
      by (simp_all add: isStale_def isGhost_def)
    with mem live have "(k, s) \<in> set (filter ?keep (sessions st))" "?end (k, s) = (k, s)"
      by simp_all
    then have "(k, s) \<in> set (sessions ?st')" unfolding sess by force
    moreover have "distinct (map fst (sessions ?st'))"
      unfolding sess keys_swept using assms1 by (rule distinct_map_filter)
    ultimately show ?thesis by (rule map_of_is_SomeI [rotated])
  qed
  have del: "AList.delete k (sessions st) = filter (\<lambda>(k', s'). k \<noteq> k') (sessions st)"
    by (simp add: AList.delete_eq case_prod_unfold)
  have d2: "distinct (map fst (sessions (st\<lparr>sessions := AList.delete k (sessions st)\<rparr>)))"
    using assms1 by (simp add: AList.distinct_delete)
  have skip: "fold ?fold (filter (\<lambda>(k', s'). k \<noteq> k') (sessions st)) c = fold ?fold (sessions st) c"
    for c
  proof (rule fold_filter_skip)
    fix x assume "x \<in> set (sessions st)" "\<not> (case x of (k', s') \<Rightarrow> k \<noteq> k')"
    then obtain s' where "x = (k, s')" "(k, s') \<in> set (sessions st)" by (cases x) auto
    with only live show "?fold x = id" by (auto simp: fun_eq_iff)
  qed
  have "carryOverStats (fst (pruneStaleAndEndedSessions now stale
              (st\<lparr>sessions := AList.delete k (sessions st)\<rparr>))) =
          fold ?fold (AList.delete k (sessions st)) (carryOverStats st)"
    by (simp add: prune_state [OF d2])
  also have "\<dots> = fold ?fold (sessions st) (carryOverStats st)"
    by (simp only: del skip)
  also have "\<dots> = carryOverStats ?st'"
    by (simp add: prune_state [OF assms1])
  finally have c: "carryOverStats ?st' = carryOverStats (fst (pruneStaleAndEndedSessions now stale
              (st\<lparr>sessions := AList.delete k (sessions st)\<rparr>)))" by simp
  have d: "carryOverStats ?st' = carryOverStats st"
    if "\<forall>(k', s') \<in> set (sessions st). \<not> isExpired now s'"
  proof -
    have "fold ?fold (sessions st) (carryOverStats st) = carryOverStats st"
      by (rule fold_id) (use that in \<open>auto simp: fun_eq_iff\<close>)
    then show ?thesis by (simp add: prune_state [OF assms1])
  qed
  from a b c d e show ?thesis by blast
qed

text \<open>
  The session that a \<^verbatim>\<open>session_start\<close> without timestamp opens is active and has counted
  no tool call; the sweep leaves it in the map and in the public state.
\<close>

theorem ghost_session_counterexample:
  "map_option (s_status \<circ> session) (map_of (sessions demoUntimed) ''s1'') = Some SessionActive \<and>
   map_option (c_toolCalls \<circ> stats) (map_of (sessions demoUntimed) ''s1'') = Some 0 \<and>
   map_option lastActivity (map_of (sessions demoUntimed) ''s1'') = Some None \<and>
   map_of (sessions (run [Sweep 99999999999 300000] demoUntimed)) ''s1'' =
     map_of (sessions demoUntimed) ''s1'' \<and>
   map s_id (ps_sessions (getPublicState (run [Sweep 99999999999 300000] demoUntimed))) = [''s1'']"
  by code_simp

theorem ghost_session_pruned_witness:
  "wfSessions demoStarted \<and> wfSessions demoUntimed \<and>
   map_of (sessions demoStarted) ''s1'' = Some (snd (hd (sessions demoStarted))) \<and>
   map_of (sessions demoUntimed) ''s1'' = Some (snd (hd (sessions demoUntimed))) \<and>
   s_status (session (snd (hd (sessions demoStarted)))) = SessionActive \<and>
   s_status (session (snd (hd (sessions demoUntimed)))) = SessionActive \<and>
   c_toolCalls (stats (snd (hd (sessions demoStarted)))) = 0 \<and>
   c_toolCalls (stats (snd (hd (sessions demoUntimed)))) = 0 \<and>
   lastActivity (snd (hd (sessions demoStarted))) = Some 1 \<and>
   lastActivity (snd (hd (sessions demoUntimed))) = None \<and>
   map_of (sessions (fst (pruneStaleAndEndedSessions 20000 300000 demoStarted))) ''s1'' = None \<and>
   ''s1'' \<notin> s_id ` set (ps_sessions (getPublicState
                 (fst (pruneStaleAndEndedSessions 20000 300000 demoStarted)))) \<and>
   carryOverStats (fst (pruneStaleAndEndedSessions 20000 300000 demoStarted)) =
     carryOverStats demoStarted \<and>
   map_of (sessions (fst (pruneStaleAndEndedSessions 99999999999 300000 demoUntimed))) ''s1'' =
     Some (snd (hd (sessions demoUntimed)))"
proof -
  have h: "wfSessions demoStarted"
    "map_of (sessions demoStarted) ''s1'' = Some (snd (hd (sessions demoStarted)))"
    "s_status (session (snd (hd (sessions demoStarted)))) = SessionActive"
    "c_toolCalls (stats (snd (hd (sessions demoStarted)))) = 0"
    by code_simp+
  have u: "wfSessions demoUntimed"
    "map_of (sessions demoUntimed) ''s1'' = Some (snd (hd (sessions demoUntimed)))"
    "s_status (session (snd (hd (sessions demoUntimed)))) = SessionActive"
    "c_toolCalls (stats (snd (hd (sessions demoUntimed)))) = 0"
    by code_simp+
  have t: "lastActivity (snd (hd (sessions demoStarted))) = Some 1"
    "lastActivity (snd (hd (sessions demoUntimed))) = None"
    by code_simp+
  have e: "\<forall>(k', s') \<in> set (sessions demoStarted). \<not> isExpired 20000 s'" by code_simp
  have idle: "\<exists>t. lastActivity (snd (hd (sessions demoStarted))) = Some t \<and> 20000 - t > 15000"
    using t(1) by simp
  note started = ghost_session_pruned [OF h, of 20000 300000]
  note untimed = ghost_session_pruned [OF u, of 99999999999 300000]
  have a: "map_of (sessions (fst (pruneStaleAndEndedSessions 20000 300000 demoStarted))) ''s1'' = None"
    using started [THEN conjunct1] idle by (rule iffD2)
  have b: "''s1'' \<notin> s_id ` set (ps_sessions (getPublicState
                 (fst (pruneStaleAndEndedSessions 20000 300000 demoStarted))))"
    using started [THEN conjunct2, THEN conjunct1] idle by (rule iffD2)
  have c: "carryOverStats (fst (pruneStaleAndEndedSessions 20000 300000 demoStarted)) =
       carryOverStats demoStarted"
    using started [THEN conjunct2, THEN conjunct2, THEN conjunct2, THEN conjunct2] e by (rule mp)
  have d: "map_of (sessions (fst (pruneStaleAndEndedSessions 99999999999 300000 demoUntimed))) ''s1'' =
     Some (snd (hd (sessions demoUntimed)))"
    using untimed [THEN conjunct2, THEN conjunct2, THEN conjunct1] t(2) by (rule mp)
  show ?thesis
    by (intro conjI) (fact h u t a b c d)+
qed

subsection \<open>Counters\<close>

lemma countersLe_refl [simp]: "countersLe a a"
  by (simp add: countersLe_def)

lemma countersLe_trans: "countersLe a b \<Longrightarrow> countersLe b c \<Longrightarrow> countersLe a c"
  by (auto simp: countersLe_def)

lemma countersLe_zero [simp]: "countersLe zeroCounters a"
  by (simp add: countersLe_def zeroCounters_def)

lemma addCounters_zero [simp]: "addCounters c zeroCounters = c"
  by (simp add: addCounters_def zeroCounters_def)

lemma stats_getOrCreateSession: "stats (getOrCreateSession k ts src st) = sessionStats st k"
  by (simp add: getOrCreateSession_def sessionStats_def createSessionState_def Let_def
      split: option.splits)

lemma stats_reactivate [simp]: "stats (reactivateIfEnded ss ts) = stats ss"
  by (simp add: reactivateIfEnded_def)

lemma stats_main:
  "getOrCreateMainAgent v ss c u = (ss', c', u', m) \<Longrightarrow> stats ss' = stats ss"
  by (auto simp: getOrCreateMainAgent_def Let_def split: option.splits prod.splits)

lemma stats_captureModel [simp]: "stats (captureModel m ss) = stats ss"
  by (simp add: captureModel_def split: option.splits)

lemma stats_addTimelineEvent [simp]: "stats (addTimelineEvent v ss ts i d) = stats ss"
  by (simp add: addTimelineEvent_def Let_def)

lemma stats_spawnOnTask: "spawnOnTask v e m ss c = (ss', c') \<Longrightarrow> stats ss' = stats ss"
  by (auto simp: spawnOnTask_def spawnSubagent_def Let_def split: if_splits)

lemma trackLines_le: "trackLines T inp c = Some c' \<Longrightarrow> countersLe c c'"
  by (auto simp: trackLines_def countersLe_def split: if_splits option.splits)

lemma trackFileAccess_le:
  assumes "trackFileAccess ss T inp ts = Some ss'"
  shows "countersLe (stats ss) (stats ss')"
proof -
  from assms obtain c where c: "trackLines T inp (stats ss) = Some c"
    and s: "stats ss' = c \<or> stats ss' = c\<lparr>c_filesAccessed := c_filesAccessed c + 1\<rparr>"
    by (auto simp: trackFileAccess_def Let_def split: option.splits if_splits)
  from s have "countersLe c (stats ss')" by (auto simp: countersLe_def)
  with trackLines_le [OF c] show ?thesis by (rule countersLe_trans)
qed

lemma recordToolStart_le:
  assumes "recordToolStart v e ss = (out, ss')"
  shows "countersLe (stats ss) (stats ss')"
proof (cases "findActiveAgent (agents ss)")
  case None
  with assms show ?thesis by (simp add: recordToolStart_def)
next
  case (Some i)
  show ?thesis
  proof (cases "summarizeInput (builtins v) (tool_name e) (tool_input e)")
    case None
    with Some assms show ?thesis by (simp add: recordToolStart_def)
  next
    case (Some summary)
    define ss1 where "ss1 = ss\<lparr>agents := (agents ss)[i := pushToolCall (newToolCall v e summary) (agents ss ! i)],
                           stats := (stats ss)\<lparr>c_toolCalls := c_toolCalls (stats ss) + 1,
                              c_estimatedTokens := c_estimatedTokens (stats ss)
                                + estimateTokens (builtins v) (tool_input e)\<rparr>,
                           pendingToolCalls :=
                              AList.update (tool_name e) (tc_id (newToolCall v e summary)) (pendingToolCalls ss)\<rparr>"
    have le1: "countersLe (stats ss) (stats ss1)"
      by (simp add: ss1_def countersLe_def)
    show ?thesis
    proof (cases "trackFileAccess ss1 (tool_name e) (tool_input e) (timestamp e)")
      case None
      with Some \<open>findActiveAgent (agents ss) = Some i\<close> assms have "ss' = ss1"
        by (auto simp: recordToolStart_def Let_def ss1_def)
      with le1 show ?thesis by simp
    next
      case (Some ss2)
      with \<open>summarizeInput (builtins v) (tool_name e) (tool_input e) = Some summary\<close>
        \<open>findActiveAgent (agents ss) = Some i\<close> assms
      have "stats ss' = stats ss2"
        by (auto simp: recordToolStart_def Let_def ss1_def)
      with trackFileAccess_le [OF Some] le1 show ?thesis
        by (auto intro: countersLe_trans)
    qed
  qed
qed

lemma finishToolEnd_le: "countersLe (stats ss) (stats (finishToolEnd v e i out ss))"
  by (simp add: finishToolEnd_def Let_def countersLe_def)

lemma recordToolEnd_le:
  assumes "recordToolEnd v e ss = (out, ss')"
  shows "countersLe (stats ss) (stats ss')"
proof -
  have f: "stats s = stats ss \<or> stats s = (stats ss)\<lparr>c_errors := c_errors (stats ss) + 1\<rparr> \<Longrightarrow>
           countersLe (stats ss) (stats (finishToolEnd v e i o' s))" for s i o'
    using finishToolEnd_le [of s v e i o'] by (auto simp: countersLe_def)
  from assms show ?thesis
    by (auto simp: recordToolEnd_def Let_def split: option.splits intro!: f)
qed

lemma recordResponse_le:
  assumes "recordResponse v e ss = (out, ss')"
  shows "countersLe (stats ss) (stats ss')"
  using assms
  by (auto simp: recordResponse_def Let_def countersLe_def split: option.splits)

lemma field_additive:
  "f \<in> set counterFields \<Longrightarrow> f (addCounters a b) = f a + f b"
  by (auto simp: counterFields_def addCounters_def)

lemma countersLe_fields: "countersLe a b \<longleftrightarrow> (\<forall>f \<in> set counterFields. f a \<le> f b)"
  by (auto simp: countersLe_def counterFields_def)

lemma counters_eq_fields:
  fixes a b :: counters
  shows "a = b \<longleftrightarrow> (\<forall>f \<in> set counterFields. f a = f b)"
  by (cases a; cases b) (auto simp: counterFields_def)

text \<open>A field of the totals is the field of the carry-over plus the sum over the sessions.\<close>

lemma field_fold:
  "f \<in> set counterFields \<Longrightarrow>
   f (fold (\<lambda>(k, s) t. addCounters t (stats s)) es c) =
     f c + sum_list (map (\<lambda>(k, s). f (stats s)) es)"
  by (induction es arbitrary: c) (auto simp: field_additive)

lemma field_totals:
  "f \<in> set counterFields \<Longrightarrow>
   f (totals (getPublicState st)) =
     f (carryOverStats st) + sum_list (map (\<lambda>(k, s). f (stats s)) (sessions st))"
  by (simp add: getPublicState_def Let_def field_fold)

lemma sum_update_absent:
  "map_of es k = None \<Longrightarrow>
   sum_list (map g (AList.update k v es)) = sum_list (map g es) + (g (k, v) :: nat)"
  by (induction es) (auto split: if_splits)

lemma sum_update_present:
  "map_of es k = Some old \<Longrightarrow>
   sum_list (map g (AList.update k v es)) + g (k, old) = sum_list (map g es) + (g (k, v) :: nat)"
  by (induction es) (auto split: if_splits)

lemma sum_delete_present:
  "distinct (map fst es) \<Longrightarrow> map_of es k = Some old \<Longrightarrow>
   sum_list (map g (AList.delete k es)) + (g (k, old) :: nat) = sum_list (map g es)"
proof (induction es)
  case Nil
  then show ?case by simp
next
  case (Cons e es)
  obtain k' s' where e: "e = (k', s')" by (cases e)
  show ?case
  proof (cases "k' = k")
    case True
    with Cons.prems e have "k \<notin> fst ` set es" "s' = old" by auto
    with True e show ?thesis by (simp add: delete_notin)
  next
    case False
    with Cons e show ?thesis by (simp add: AList.delete_eq)
  qed
qed

lemma sum_split:
  "sum_list (map g (filter P xs)) + sum_list (map g (filter (\<lambda>x. \<not> P x) xs)) =
   (sum_list (map g xs) :: nat)"
  by (induction xs) auto

lemma field_fold_expired:
  "f \<in> set counterFields \<Longrightarrow>
   f (fold (\<lambda>(k, s) c. if P s then addCounters c (stats s) else c) es c0) =
     f c0 + sum_list (map (\<lambda>(k, s). f (stats s)) (filter (\<lambda>(k, s). P s) es))"
  by (induction es arbitrary: c0) (auto simp: field_additive)

subsection \<open>What an event does to the counters\<close>

lemma case_notification_stages:
  assumes "case_notification v e st = (out, st')"
  obtains ss2 where
    "recordResponse v e (reactivateIfEnded
       (getOrCreateSession (sessionIdOr ''unknown'' e) (timestamp e) (detectSource e) st)
       (timestamp e)) = (out, ss2)"
    "st' = putSession (sessionIdOr ''unknown'' e) ss2 st"
  using assms by (auto simp: case_notification_def Let_def split: prod.splits)

lemma case_pre_effect:
  assumes "case_pre v e st = (out, st')"
  shows "carryOverStats st' = carryOverStats st \<and>
         (\<exists>ss. sessions st' = AList.update (sessionIdOr ''unknown'' e) ss (sessions st) \<and>
               countersLe (sessionStats st (sessionIdOr ''unknown'' e)) (stats ss))"
proof -
  from assms obtain ss1 ss2 c2 u2 m ss4 c4 ss5 where
    ss1: "ss1 = reactivateIfEnded
       (getOrCreateSession (sessionIdOr ''unknown'' e) (timestamp e) (detectSource e) st)
       (timestamp e)" and
    main: "getOrCreateMainAgent v ss1 (agentIdCounter st) (usedNames st) = (ss2, c2, u2, m)" and
    spawn: "spawnOnTask v e m (captureModel (model e) ss2) c2 = (ss4, c4)" and
    rec: "recordToolStart v e ss4 = (out, ss5)" and
    st': "st' = putSession (sessionIdOr ''unknown'' e) ss5 (st\<lparr>agentIdCounter := c4, usedNames := u2\<rparr>)"
    by (rule case_pre_stages)
  have "stats ss4 = sessionStats st (sessionIdOr ''unknown'' e)"
    using stats_spawnOnTask [OF spawn] stats_main [OF main]
    by (simp add: ss1 stats_getOrCreateSession)
  with recordToolStart_le [OF rec] st' show ?thesis
    by (auto simp: putSession_def)
qed

lemma case_post_effect:
  assumes "case_post v e st = (out, st')"
  shows "carryOverStats st' = carryOverStats st \<and>
         (\<exists>ss. sessions st' = AList.update (sessionIdOr ''unknown'' e) ss (sessions st) \<and>
               countersLe (sessionStats st (sessionIdOr ''unknown'' e)) (stats ss))"
proof -
  from assms obtain ss2 where
    r: "recordToolEnd v e (reactivateIfEnded
       (getOrCreateSession (sessionIdOr ''unknown'' e) (timestamp e) (detectSource e) st)
       (timestamp e)) = (out, ss2)"
    and st': "st' = putSession (sessionIdOr ''unknown'' e) ss2 st" by (rule case_post_stages)
  from recordToolEnd_le [OF r] st' show ?thesis
    by (auto simp: putSession_def stats_getOrCreateSession)
qed

lemma case_notification_effect:
  assumes "case_notification v e st = (out, st')"
  shows "carryOverStats st' = carryOverStats st \<and>
         (\<exists>ss. sessions st' = AList.update (sessionIdOr ''unknown'' e) ss (sessions st) \<and>
               countersLe (sessionStats st (sessionIdOr ''unknown'' e)) (stats ss))"
proof -
  from assms obtain ss2 where
    r: "recordResponse v e (reactivateIfEnded
       (getOrCreateSession (sessionIdOr ''unknown'' e) (timestamp e) (detectSource e) st)
       (timestamp e)) = (out, ss2)"
    and st': "st' = putSession (sessionIdOr ''unknown'' e) ss2 st"
    by (rule case_notification_stages)
  from recordResponse_le [OF r] st' show ?thesis
    by (auto simp: putSession_def stats_getOrCreateSession)
qed

lemma case_session_end_effect:
  assumes "case_session_end v e st = (out, st')"
  shows "carryOverStats st' = carryOverStats st \<and>
         (sessions st' = sessions st \<or>
          (\<exists>ss. sessions st' = AList.update (sessionIdOr ''unknown'' e) ss (sessions st) \<and>
               countersLe (sessionStats st (sessionIdOr ''unknown'' e)) (stats ss)))"
  using assms
  by (auto simp: case_session_end_def Let_def getSession_def putSession_def endSession_def
      sessionStats_def split: option.splits)

lemma case_session_start_effect:
  assumes "case_session_start v e st = (out, st')"
  shows "carryOverStats st' =
           addCounters (carryOverStats st) (sessionStats st (sessionIdOr ''unknown'' e)) \<and>
         (\<exists>ss. sessions st' = AList.update (sessionIdOr ''unknown'' e) ss
                  (AList.delete (sessionIdOr ''unknown'' e) (sessions st)) \<and>
               stats ss = zeroCounters)"
proof -
  let ?k = "sessionIdOr ''unknown'' e"
  from assms obtain ss' c u m where main: "getOrCreateMainAgent v
       (getOrCreateSession ?k (timestamp e) (detectSource e) (resetExisting ?k st))
       (agentIdCounter st) (usedNames st) = (ss', c, u, m)"
    and st': "st' = putSession ?k ss' ((resetExisting ?k st)\<lparr>agentIdCounter := c, usedNames := u\<rparr>)"
    by (rule case_session_start_stages)
  have none: "map_of (sessions (resetExisting ?k st)) ?k = None"
    by (simp add: map_of_resetExisting)
  have z: "stats ss' = zeroCounters"
    using stats_main [OF main] none by (simp add: stats_getOrCreateSession sessionStats_def)
  have c: "carryOverStats (resetExisting ?k st) = addCounters (carryOverStats st) (sessionStats st ?k)"
    by (simp add: resetExisting_def sessionStats_def split: option.splits)
  have s: "sessions (resetExisting ?k st) = AList.delete ?k (sessions st)"
    by (auto simp: resetExisting_def map_of_eq_None_iff delete_notin split: option.splits)
  from z c s st' show ?thesis by (auto simp: putSession_def)
qed

lemma processEvent_effect:
  assumes "processEvent v e st = (out, st')"
  shows "(phase e = ''session_start'' \<and>
          carryOverStats st' =
            addCounters (carryOverStats st) (sessionStats st (sessionIdOr ''unknown'' e)) \<and>
          (\<exists>ss. sessions st' = AList.update (sessionIdOr ''unknown'' e) ss
                   (AList.delete (sessionIdOr ''unknown'' e) (sessions st)) \<and>
                stats ss = zeroCounters)) \<or>
         (phase e \<noteq> ''session_start'' \<and> carryOverStats st' = carryOverStats st \<and>
          (sessions st' = sessions st \<or>
           (\<exists>ss. sessions st' = AList.update (sessionIdOr ''unknown'' e) ss (sessions st) \<and>
                 countersLe (sessionStats st (sessionIdOr ''unknown'' e)) (stats ss))))"
proof -
  consider (start) "phase e = ''session_start''"
    | (ended) "phase e = ''session_end''"
    | (pre) "phase e = ''pre''"
    | (post) "phase e = ''post''"
    | (notification) "phase e = ''notification''"
    | (other) "phase e \<noteq> ''session_start''" "phase e \<noteq> ''session_end''" "phase e \<noteq> ''pre''"
        "phase e \<noteq> ''post''" "phase e \<noteq> ''notification''"
    by blast
  then show ?thesis
  proof cases
    case start
    with assms have "case_session_start v e st = (out, st')" by (simp add: processEvent_def)
    from case_session_start_effect [OF this] start show ?thesis by simp
  next
    case ended
    with assms have "case_session_end v e st = (out, st')" by (simp add: processEvent_def)
    from case_session_end_effect [OF this] ended show ?thesis by simp
  next
    case pre
    with assms have "case_pre v e st = (out, st')" by (simp add: processEvent_def)
    from case_pre_effect [OF this] pre show ?thesis by simp
  next
    case post
    with assms have "case_post v e st = (out, st')" by (simp add: processEvent_def)
    from case_post_effect [OF this] post show ?thesis by simp
  next
    case notification
    with assms have "case_notification v e st = (out, st')" by (simp add: processEvent_def)
    from case_notification_effect [OF this] notification show ?thesis by simp
  next
    case other
    with assms have "st' = st" by (simp add: processEvent_def)
    with other show ?thesis by simp
  qed
qed

lemma session_counters_grow:
  assumes "processEvent v e st = (out, st')" and "map_of (sessions st) k = Some ss"
    and "\<not> (phase e = ''session_start'' \<and> sessionIdOr ''unknown'' e = k)"
  shows "\<exists>ss'. map_of (sessions st') k = Some ss' \<and> countersLe (stats ss) (stats ss')"
proof -
  let ?sid = "sessionIdOr ''unknown'' e"
  from processEvent_effect [OF assms(1)] consider
    (reset) ss' where "phase e = ''session_start''"
      "sessions st' = AList.update ?sid ss' (AList.delete ?sid (sessions st))"
    | (same) "sessions st' = sessions st"
    | (upd) ss' where "sessions st' = AList.update ?sid ss' (sessions st)"
      "countersLe (sessionStats st ?sid) (stats ss')"
    by blast
  then show ?thesis
  proof cases
    case reset
    with assms(3) have "?sid \<noteq> k" by simp
    with reset assms(2) show ?thesis
      by (simp add: AList.update_conv' AList.delete_conv')
  next
    case same
    with assms(2) show ?thesis by simp
  next
    case upd
    with assms(2) show ?thesis
      by (cases "?sid = k") (auto simp: AList.update_conv' sessionStats_def)
  qed
qed

lemma totals_grow_field:
  assumes "processEvent v e st = (out, st')" and "distinct (map fst (sessions st))"
    and f: "f \<in> set counterFields"
  shows "f (totals (getPublicState st)) \<le> f (totals (getPublicState st')) \<and>
         (phase e = ''session_start'' \<longrightarrow>
            f (totals (getPublicState st')) = f (totals (getPublicState st)))"
proof -
  let ?sid = "sessionIdOr ''unknown'' e"
  let ?g = "\<lambda>(k, s). f (stats s)"
  let ?S = "\<lambda>es. sum_list (map ?g es)"
  have prior: "?S (sessions st) = ?S (AList.delete ?sid (sessions st)) + f (sessionStats st ?sid)"
  proof (cases "map_of (sessions st) ?sid")
    case None
    then have "?sid \<notin> fst ` set (sessions st)" by (simp add: map_of_eq_None_iff)
    with None f show ?thesis
      by (auto simp: delete_notin sessionStats_def zeroCounters_def counterFields_def)
  next
    case (Some old)
    from sum_delete_present [OF assms(2) Some, of ?g] Some show ?thesis
      by (simp add: sessionStats_def)
  qed
  have none: "map_of (AList.delete ?sid (sessions st)) ?sid = None"
    by (simp add: AList.delete_conv')
  from processEvent_effect [OF assms(1)] consider
    (reset) ss' where "phase e = ''session_start''"
      "carryOverStats st' = addCounters (carryOverStats st) (sessionStats st ?sid)"
      "sessions st' = AList.update ?sid ss' (AList.delete ?sid (sessions st))"
      "stats ss' = zeroCounters"
    | (same) "phase e \<noteq> ''session_start''" "carryOverStats st' = carryOverStats st"
      "sessions st' = sessions st"
    | (upd) ss' where "phase e \<noteq> ''session_start''" "carryOverStats st' = carryOverStats st"
      "sessions st' = AList.update ?sid ss' (sessions st)"
      "countersLe (sessionStats st ?sid) (stats ss')"
    by blast
  then show ?thesis
  proof cases
    case reset
    have "f zeroCounters = 0" using f by (auto simp: counterFields_def zeroCounters_def)
    with reset prior sum_update_absent [OF none, of ?g ss'] f show ?thesis
      by (simp add: field_totals field_additive)
  next
    case same
    with f show ?thesis by (simp add: field_totals)
  next
    case upd
    from upd(4) f have le: "f (sessionStats st ?sid) \<le> f (stats ss')"
      by (simp add: countersLe_fields)
    have "?S (sessions st) \<le> ?S (sessions st')"
    proof (cases "map_of (sessions st) ?sid")
      case None
      from sum_update_absent [OF None, of ?g ss'] upd(3) show ?thesis by simp
    next
      case (Some old)
      from sum_update_present [OF Some, of ?g ss'] upd(3) le Some show ?thesis
        by (simp add: sessionStats_def)
    qed
    with upd f show ?thesis by (simp add: field_totals)
  qed
qed

lemma totals_sweep_field:
  assumes "distinct (map fst (sessions st))" and f: "f \<in> set counterFields"
  shows "f (totals (getPublicState (fst (pruneStaleAndEndedSessions now stale st)))) +
           f (ghostStats now st) = f (totals (getPublicState st))"
proof -
  let ?g = "\<lambda>(k, s). f (stats s)"
  let ?end = "\<lambda>(k, s). if isStale now stale s then (k, endSession (Some now) s) else (k, s)"
  let ?exp = "\<lambda>(k, s). isExpired now s"
  let ?gh = "\<lambda>(k, s). isGhost now s"
  have g: "map ?g (map ?end es) = map ?g es" for es
    by (induction es) (auto simp: endSession_def)
  have kept: "filter (\<lambda>(k, s). \<not> isExpired now s \<and> \<not> isGhost now s) (sessions st) =
              filter (\<lambda>x. \<not> ?gh x) (filter (\<lambda>x. \<not> ?exp x) (sessions st))"
    by (auto intro: filter_cong)
  have ghosts: "filter ?gh (sessions st) = filter ?gh (filter (\<lambda>x. \<not> ?exp x) (sessions st))"
    by (auto intro: filter_cong dest: ghost_not_expired)
  have z: "f zeroCounters = 0" using f by (auto simp: counterFields_def zeroCounters_def)
  have "f (totals (getPublicState (fst (pruneStaleAndEndedSessions now stale st)))) =
        f (carryOverStats st) + sum_list (map ?g (filter ?exp (sessions st))) +
        sum_list (map ?g (filter (\<lambda>x. \<not> ?gh x) (filter (\<lambda>x. \<not> ?exp x) (sessions st))))"
    using f by (simp add: prune_state [OF assms(1)] field_totals field_fold_expired kept g
        del: map_map)
  moreover have "f (ghostStats now st) =
        sum_list (map ?g (filter ?gh (filter (\<lambda>x. \<not> ?exp x) (sessions st))))"
    by (subst ghosts [symmetric]) (use f z in \<open>simp add: ghostStats_def field_fold_expired\<close>)
  moreover have "f (totals (getPublicState st)) =
        f (carryOverStats st) + sum_list (map ?g (sessions st))"
    using f by (simp add: field_totals)
  ultimately show ?thesis
    using sum_split [of ?g ?exp "sessions st"]
      sum_split [of ?g ?gh "filter (\<lambda>x. \<not> ?exp x) (sessions st)"]
    by simp
qed

text \<open>
  Claim C5. For a session \<open>k\<close> of the map and an event that is not a \<^verbatim>\<open>session_start\<close> for
  \<open>k\<close> (which deletes the session), the session is still in the map after the event,
  whether the event returns or throws, and none of its counters is smaller. The totals
  of the public state (carry-over plus the counters of the sessions in the map) are not
  smaller after an event; across the reset of \<^verbatim>\<open>session_start\<close>, which deletes a session
  and folds its counters, they are the same. A sweep takes from the totals the counters
  of the sessions that it deletes without a fold (idle, no tool call) and nothing else:
  the deletion of an ended session that folds leaves the totals as they are.
\<close>

theorem counters_never_decrease:
  "(processEvent v e st = (out, st') \<and> map_of (sessions st) k = Some ss \<and>
    \<not> (phase e = ''session_start'' \<and> sessionIdOr ''unknown'' e = k) \<longrightarrow>
      (\<exists>ss'. map_of (sessions st') k = Some ss' \<and> countersLe (stats ss) (stats ss'))) \<and>
   (wfSessions st \<longrightarrow>
      countersLe (totals (getPublicState st))
        (totals (getPublicState (snd (processEvent v e st))))) \<and>
   (wfSessions st \<and> phase e = ''session_start'' \<longrightarrow>
      totals (getPublicState (snd (processEvent v e st))) = totals (getPublicState st)) \<and>
   (wfSessions st \<longrightarrow>
      addCounters (totals (getPublicState (fst (pruneStaleAndEndedSessions now stale st))))
        (ghostStats now st) = totals (getPublicState st))"
proof (intro conjI impI)
  assume "processEvent v e st = (out, st') \<and> map_of (sessions st) k = Some ss \<and>
    \<not> (phase e = ''session_start'' \<and> sessionIdOr ''unknown'' e = k)"
  then show "\<exists>ss'. map_of (sessions st') k = Some ss' \<and> countersLe (stats ss) (stats ss')"
    using session_counters_grow [of v e st out st' k ss] by blast
next
  assume "wfSessions st"
  then have d: "distinct (map fst (sessions st))" by (simp add: wfSessions_def)
  have p: "processEvent v e st = (fst (processEvent v e st), snd (processEvent v e st))" by simp
  from totals_grow_field [OF p d]
  show "countersLe (totals (getPublicState st)) (totals (getPublicState (snd (processEvent v e st))))"
    by (simp add: countersLe_fields)
next
  assume "wfSessions st \<and> phase e = ''session_start''"
  then have d: "distinct (map fst (sessions st))" and ph: "phase e = ''session_start''"
    by (simp_all add: wfSessions_def)
  have p: "processEvent v e st = (fst (processEvent v e st), snd (processEvent v e st))" by simp
  from totals_grow_field [OF p d] ph
  show "totals (getPublicState (snd (processEvent v e st))) = totals (getPublicState st)"
    by (simp add: counters_eq_fields)
next
  assume "wfSessions st"
  then have d: "distinct (map fst (sessions st))" by (simp add: wfSessions_def)
  from totals_sweep_field [OF d, of _ now stale]
  show "addCounters (totals (getPublicState (fst (pruneStaleAndEndedSessions now stale st))))
        (ghostStats now st) = totals (getPublicState st)"
    by (simp add: counters_eq_fields field_additive)
qed

theorem counters_never_decrease_witness:
  "map_of (sessions demoStarted) ''s1'' = Some (snd (hd (sessions demoStarted))) \<and>
   \<not> (phase (preEv (Some 2) ''Read'' readInput) = ''session_start'' \<and>
      sessionIdOr ''unknown'' (preEv (Some 2) ''Read'' readInput) = ''s1'') \<and>
   (\<exists>ss'. map_of (sessions demoReading) ''s1'' = Some ss' \<and>
          countersLe (stats (snd (hd (sessions demoStarted)))) (stats ss')) \<and>
   wfSessions demoStarted \<and>
   countersLe (totals (getPublicState demoStarted)) (totals (getPublicState demoReading)) \<and>
   wfSessions demoReading \<and> phase startEv = ''session_start'' \<and>
   totals (getPublicState (snd (processEvent (demoEnv 9 ''eeee'') startEv demoReading))) =
     totals (getPublicState demoReading) \<and>
   addCounters (totals (getPublicState (fst (pruneStaleAndEndedSessions 20000 300000 demoStarted))))
     (ghostStats 20000 demoStarted) = totals (getPublicState demoStarted)"
proof -
  let ?e = "preEv (Some 2) ''Read'' readInput" and ?v = "demoEnv 6 ''bbbb''"
  have s: "map_of (sessions demoStarted) ''s1'' = Some (snd (hd (sessions demoStarted)))"
    by code_simp
  have n: "\<not> (phase ?e = ''session_start'' \<and> sessionIdOr ''unknown'' ?e = ''s1'')"
    by (simp add: preEv_def demoEvent_def)
  have wf1: "wfSessions demoStarted" by code_simp
  have wf2: "wfSessions demoReading" by code_simp
  have ph: "phase startEv = ''session_start''" by (simp add: startEv_def demoEvent_def)
  have p: "processEvent ?v ?e demoStarted = (fst (processEvent ?v ?e demoStarted), demoReading)"
    by (simp add: demoReading_def run_def)
  have r: "snd (processEvent ?v ?e demoStarted) = demoReading"
    by (simp add: demoReading_def run_def)
  from counters_never_decrease [of ?v ?e demoStarted "fst (processEvent ?v ?e demoStarted)"
      demoReading "''s1''" "snd (hd (sessions demoStarted))" 20000 300000] p s n wf1 r
  have a: "\<exists>ss'. map_of (sessions demoReading) ''s1'' = Some ss' \<and>
          countersLe (stats (snd (hd (sessions demoStarted)))) (stats ss')"
    and b: "countersLe (totals (getPublicState demoStarted)) (totals (getPublicState demoReading))"
    and d: "addCounters (totals (getPublicState (fst (pruneStaleAndEndedSessions 20000 300000 demoStarted))))
     (ghostStats 20000 demoStarted) = totals (getPublicState demoStarted)"
    by simp_all
  from counters_never_decrease [of "demoEnv 9 ''eeee''" startEv demoReading] wf2 ph
  have c: "totals (getPublicState (snd (processEvent (demoEnv 9 ''eeee'') startEv demoReading))) =
     totals (getPublicState demoReading)" by blast
  from s n a wf1 b wf2 ph c d show ?thesis by blast
qed

subsection \<open>The reset of a session\<close>

text \<open>
  Claim C4, at the input where the code departs from it. The session \<^verbatim>\<open>s1\<close> exists and
  its main agent bears the name Nova. A \<^verbatim>\<open>session_start\<close> for \<^verbatim>\<open>s1\<close> replaces the session
  by a fresh one whose main agent is named Cipher, and Nova stays in the set of used
  names. When the same session is ended and the pruner deletes it after the retention
  window, the name is released.
\<close>

theorem reset_keeps_name:
  "map a_name (sessionAgents demoStarted ''s1'') = [JStr ''Nova''] \<and>
   usedNames demoStarted = {''Nova''} \<and>
   map a_name (sessionAgents (run [Event (demoEnv 9 ''eeee'') startEv] demoStarted) ''s1'') =
     [JStr ''Cipher''] \<and>
   usedNames (run [Event (demoEnv 9 ''eeee'') startEv] demoStarted) = {''Nova'', ''Cipher''} \<and>
   sessions (run [Event (demoEnv 9 ''eeee'') endEv, Sweep 200000 300000] demoStarted) = [] \<and>
   usedNames (run [Event (demoEnv 9 ''eeee'') endEv, Sweep 200000 300000] demoStarted) = {}"
  by code_simp

subsection \<open>The administrative disconnect\<close>

lemma disconnectLoop:
  assumes "distinct (map fst (pre @ es))" and "sessions st = pre @ es"
  shows "sessions (fold (\<lambda>(k, s) st'. if s_source (session s) = src then deleteSession k st'
                                       else st') es st) =
         pre @ filter (\<lambda>(k, s). s_source (session s) \<noteq> src) es"
  using assms
proof (induction es arbitrary: st pre)
  case Nil
  then show ?case by simp
next
  case (Cons e es)
  obtain k s where e: "e = (k, s)" by (cases e)
  from Cons.prems e have kpre: "k \<notin> fst ` set pre" and kes: "k \<notin> fst ` set es"
    and d: "distinct (map fst (pre @ es))"
    and d': "distinct (map fst ((pre @ [(k, s)]) @ es))" by auto
  show ?case
  proof (cases "s_source (session s) = src")
    case True
    from kpre have "map_of pre k = None" by (simp add: map_of_eq_None_iff)
    with Cons.prems(2) e have look: "map_of (sessions st) k = Some s"
      by (simp add: map_add_def)
    have s1: "sessions (deleteSession k st) = pre @ es"
      using look Cons.prems(2) e kpre kes
      by (simp add: deleteSession_def delete_append_notin delete_notin)
    from Cons.IH [OF d s1] True e show ?thesis by simp
  next
    case False
    have s1: "sessions st = (pre @ [(k, s)]) @ es" using Cons.prems(2) e by simp
    from Cons.IH [OF d' s1] False e show ?thesis by simp
  qed
qed

lemma sessions_disconnectSource:
  "distinct (map fst (sessions st)) \<Longrightarrow>
   sessions (disconnectSource src st) =
     filter (\<lambda>(k, s). s_source (session s) \<noteq> src) (sessions st)"
  using disconnectLoop [of "[]" "sessions st" st src] by (simp add: disconnectSource_def)

text \<open>
  Claim C9. On the model of the administrative command: after the disconnect of the source
  \<open>src\<close>, a session of the map whose source tag is not \<open>src\<close> is in the map as it was
  (status, agents, statistics and all other fields), a session whose source tag is \<open>src\<close>
  is not in the map, and no session has been added.
\<close>

theorem disconnect_frame:
  assumes "wfSessions st"
  shows "(map_of (sessions st) k = Some s \<and> s_source (session s) \<noteq> src \<longrightarrow>
            map_of (sessions (disconnectSource src st)) k = Some s) \<and>
         (map_of (sessions st) k = Some s \<and> s_source (session s) = src \<longrightarrow>
            map_of (sessions (disconnectSource src st)) k = None) \<and>
         (map_of (sessions st) k = None \<longrightarrow>
            map_of (sessions (disconnectSource src st)) k = None)"
proof -
  from assms have d: "distinct (map fst (sessions st))" by (simp add: wfSessions_def)
  let ?P = "\<lambda>(k, s). s_source (session s) \<noteq> src"
  have sess: "sessions (disconnectSource src st) = filter ?P (sessions st)"
    by (rule sessions_disconnectSource [OF d])
  have a: "map_of (filter ?P (sessions st)) k = Some s"
    if "map_of (sessions st) k = Some s" "s_source (session s) \<noteq> src"
    using that by (intro map_of_is_SomeI) (auto simp: d distinct_map_filter dest: map_of_SomeD)
  have b: "map_of (filter ?P (sessions st)) k = None"
    if "map_of (sessions st) k = Some s" "s_source (session s) = src"
  proof -
    have "k \<notin> fst ` set (filter ?P (sessions st))"
      using distinct_entry [OF d that(1)] that(2) by auto
    then show ?thesis by (simp add: map_of_eq_None_iff)
  qed
  have c: "map_of (filter ?P (sessions st)) k = None" if "map_of (sessions st) k = None"
  proof -
    from that have "k \<notin> fst ` set (sessions st)" by (simp add: map_of_eq_None_iff)
    then have "k \<notin> fst ` set (filter ?P (sessions st))" by auto
    then show ?thesis by (simp add: map_of_eq_None_iff)
  qed
  show ?thesis
    unfolding sess
  proof (intro conjI impI)
    assume "map_of (sessions st) k = Some s \<and> s_source (session s) \<noteq> src"
    then show "map_of (filter ?P (sessions st)) k = Some s" using a by simp
  next
    assume "map_of (sessions st) k = Some s \<and> s_source (session s) = src"
    then show "map_of (filter ?P (sessions st)) k = None" using b by simp
  next
    assume "map_of (sessions st) k = None"
    then show "map_of (filter ?P (sessions st)) k = None" by (rule c)
  qed
qed

theorem disconnect_frame_witness:
  "wfSessions demoTwoSources \<and>
   map (\<lambda>(k, s). (k, s_source (session s))) (sessions demoTwoSources) =
     [(''s1'', ''claudecode''), (''oc-7'', ''opencode'')] \<and>
   map_of (sessions (disconnectSource ''opencode'' demoTwoSources)) ''s1'' =
     map_of (sessions demoTwoSources) ''s1'' \<and>
   map_of (sessions demoTwoSources) ''s1'' \<noteq> None \<and>
   map_of (sessions demoTwoSources) ''oc-7'' \<noteq> None \<and>
   map_of (sessions (disconnectSource ''opencode'' demoTwoSources)) ''oc-7'' = None \<and>
   map_of (sessions demoTwoSources) ''s2'' = None \<and>
   map_of (sessions (disconnectSource ''opencode'' demoTwoSources)) ''s2'' = None"
proof -
  have wf: "wfSessions demoTwoSources" by code_simp
  have src: "map (\<lambda>(k, s). (k, s_source (session s))) (sessions demoTwoSources) =
     [(''s1'', ''claudecode''), (''oc-7'', ''opencode'')]" by code_simp
  obtain s1 where s1: "map_of (sessions demoTwoSources) ''s1'' = Some s1"
    and n1: "s_source (session s1) \<noteq> ''opencode''"
  proof -
    have "map_of (sessions demoTwoSources) ''s1'' = Some (snd (hd (sessions demoTwoSources)))"
      "s_source (session (snd (hd (sessions demoTwoSources)))) \<noteq> ''opencode''"
      by code_simp+
    then show ?thesis using that by blast
  qed
  obtain s2 where s2: "map_of (sessions demoTwoSources) ''oc-7'' = Some s2"
    and n2: "s_source (session s2) = ''opencode''"
  proof -
    have "map_of (sessions demoTwoSources) ''oc-7'' = Some (snd (last (sessions demoTwoSources)))"
      "s_source (session (snd (last (sessions demoTwoSources)))) = ''opencode''"
      by code_simp+
    then show ?thesis using that by blast
  qed
  have s3: "map_of (sessions demoTwoSources) ''s2'' = None" by code_simp
  from disconnect_frame [OF wf, of "''s1''" s1 "''opencode''"] s1 n1
  have a: "map_of (sessions (disconnectSource ''opencode'' demoTwoSources)) ''s1'' =
     map_of (sessions demoTwoSources) ''s1''" by simp
  from disconnect_frame [OF wf, of "''oc-7''" s2 "''opencode''"] s2 n2
  have b: "map_of (sessions (disconnectSource ''opencode'' demoTwoSources)) ''oc-7'' = None"
    by simp
  from disconnect_frame [OF wf, of "''s2''" _ "''opencode''"] s3
  have c: "map_of (sessions (disconnectSource ''opencode'' demoTwoSources)) ''s2'' = None"
    by simp
  from wf src a b c s1 s2 s3 show ?thesis by simp
qed

subsection \<open>Completed subagents\<close>

lemma modifyFirst_set:
  "b \<in> set (modifyFirst P f as) \<Longrightarrow> b \<in> set as \<or> (\<exists>a \<in> set as. P a \<and> b = f a)"
  by (induction as) (auto split: if_splits)

lemma modifyLast_set:
  "b \<in> set (modifyLast P f as) \<Longrightarrow> b \<in> set as \<or> (\<exists>a \<in> set as. P a \<and> b = f a)"
  using modifyFirst_set [of b P f "rev as"] by (simp add: modifyLast_def)

lemma settled_core:
  "map agentCore as = map agentCore bs \<Longrightarrow> settled x as = settled x bs"
proof -
  assume h: "map agentCore as = map agentCore bs"
  have "settled x cs \<longleftrightarrow>
        (\<forall>c \<in> set (map agentCore cs). fst c = x \<longrightarrow> fst (snd c) = Subagent \<and>
            fst (snd (snd c)) = AgentCompleted)" for cs
    by (auto simp: settled_def agentCore_def)
  then have "settled x as \<longleftrightarrow>
        (\<forall>c \<in> set (map agentCore as). fst c = x \<longrightarrow> fst (snd c) = Subagent \<and>
            fst (snd (snd c)) = AgentCompleted)"
    and "settled x bs \<longleftrightarrow>
        (\<forall>c \<in> set (map agentCore bs). fst c = x \<longrightarrow> fst (snd c) = Subagent \<and>
            fst (snd (snd c)) = AgentCompleted)" by blast+
  then show ?thesis by (simp only: h)
qed

lemma settled_append:
  "settled x (as @ bs) \<longleftrightarrow> settled x as \<and> settled x bs"
  by (auto simp: settled_def)

lemma settled_reactivate:
  assumes "settled x (agents ss)"
  shows "settled x (agents (reactivateIfEnded ss ts))"
proof -
  have "settled x (modifyFirst isMain reviveAgent (agents ss))"
    unfolding settled_def
  proof (intro ballI impI)
    fix b assume b: "b \<in> set (modifyFirst isMain reviveAgent (agents ss))" "a_id b = x"
    from modifyFirst_set [OF b(1)] show "a_type b = Subagent \<and> a_status b = AgentCompleted"
    proof
      assume "b \<in> set (agents ss)"
      with assms b(2) show ?thesis by (simp add: settled_def)
    next
      assume "\<exists>a \<in> set (agents ss). isMain a \<and> b = reviveAgent a"
      then obtain a where a: "a \<in> set (agents ss)" "isMain a" "b = reviveAgent a" by blast
      with b(2) have "a_id a = x" by (simp add: reviveAgent_def split: if_splits)
      with assms a show ?thesis by (simp add: settled_def isMain_def)
    qed
  qed
  with assms show ?thesis by (simp add: reactivateIfEnded_def)
qed

lemma main_agents:
  assumes "getOrCreateMainAgent v ss c u = (ss', c', u', m)"
  shows "(agents ss' = agents ss \<and> c' = c) \<or>
         (\<exists>a. agents ss' = agents ss @ [a] \<and> a_id a = c \<and> c' = Suc c)"
proof (cases "find isMain (agents ss)")
  case None
  with assms show ?thesis
    by (auto simp: getOrCreateMainAgent_def Let_def split: prod.splits)
next
  case (Some a)
  with assms show ?thesis by (auto simp: getOrCreateMainAgent_def)
qed

lemma settled_single: "a_id a \<noteq> x \<Longrightarrow> settled x [a]"
  by (simp add: settled_def)

lemma settled_main:
  assumes "getOrCreateMainAgent v ss c u = (ss', c', u', m)"
    and "settled x (agents ss)" and "x < c"
  shows "settled x (agents ss') \<and> c \<le> c'"
  using main_agents [OF assms(1)] assms(2,3)
  by (auto simp: settled_append intro: settled_single)

lemma settled_captureModel:
  "settled x (agents (captureModel m ss)) = settled x (agents ss)"
  by (rule settled_core) (simp add: captureModel_core)

lemma settled_spawnOnTask:
  assumes "spawnOnTask v e m ss c = (ss', c')" and "settled x (agents ss)" and "x < c"
  shows "settled x (agents ss') \<and> c \<le> c'"
proof (cases "tool_name e = ''Task''")
  case True
  with spawnOnTask_core [OF assms(1)] obtain sub where
    "agents ss' = agents ss @ [sub]" "a_id sub = c" by blast
  moreover from True assms(1) have "c' = Suc c"
    by (auto simp: spawnOnTask_def spawnSubagent_def Let_def)
  ultimately show ?thesis using assms(2,3)
    by (auto simp: settled_append intro: settled_single)
next
  case False
  with assms show ?thesis by (simp add: spawnOnTask_def)
qed

lemma settled_recordToolStart:
  "recordToolStart v e ss = (out, ss') \<Longrightarrow> settled x (agents ss') = settled x (agents ss)"
  by (rule settled_core) (simp add: recordToolStart_core)

lemma core_modifyToolCall:
  "map agentCore (modifyToolCall pid f as) = map agentCore as"
  by (induction as) (auto simp: agentCore_def split: option.splits)

lemma settled_completeLast:
  assumes "settled x as"
  shows "settled x (modifyLast (\<lambda>a. a_type a = Subagent \<and> a_status a = AgentActive)
           (completeAgent ts) as)"
  unfolding settled_def
proof (intro ballI impI)
  fix b
  assume b: "b \<in> set (modifyLast (\<lambda>a. a_type a = Subagent \<and> a_status a = AgentActive)
           (completeAgent ts) as)" "a_id b = x"
  from modifyLast_set [OF b(1)] show "a_type b = Subagent \<and> a_status b = AgentCompleted"
  proof
    assume "b \<in> set as"
    with assms b(2) show ?thesis by (simp add: settled_def)
  next
    assume "\<exists>a \<in> set as. (a_type a = Subagent \<and> a_status a = AgentActive) \<and> b = completeAgent ts a"
    then show ?thesis by (auto simp: completeAgent_def)
  qed
qed

lemma settled_finishToolEnd:
  "settled x (agents ss) \<Longrightarrow> settled x (agents (finishToolEnd v e i out ss))"
  by (simp add: finishToolEnd_def Let_def settled_completeLast)

lemma settled_recordToolEnd:
  assumes "recordToolEnd v e ss = (out, ss')" and "settled x (agents ss)"
  shows "settled x (agents ss')"
proof -
  have m: "settled x (modifyToolCall pid f (agents ss))" for pid f
    using assms(2) settled_core [OF core_modifyToolCall, of x pid f "agents ss"] by simp
  from assms show ?thesis
    by (auto simp: recordToolEnd_def Let_def m split: option.splits
        intro!: settled_finishToolEnd)
qed

lemma core_update_response:
  "map agentCore (as[i := (as ! i)\<lparr>lastResponse := r\<rparr>]) = map agentCore as"
proof (cases "i < length as")
  case True
  then show ?thesis
    by (intro nth_equalityI) (auto simp: nth_list_update agentCore_def)
next
  case False
  then show ?thesis by (simp add: list_update_beyond)
qed

lemma settled_recordResponse:
  assumes "recordResponse v e ss = (out, ss')" and "settled x (agents ss)"
  shows "settled x (agents ss')"
proof -
  have u: "settled x ((agents ss)[i := (agents ss ! i)\<lparr>lastResponse := r\<rparr>])" for i r
    using assms(2) settled_core [OF core_update_response, of x "agents ss" i r] by simp
  from assms show ?thesis
    by (auto simp: recordResponse_def Let_def u split: option.splits)
qed

lemma settled_endSession:
  "settled x (agents ss) \<Longrightarrow> settled x (agents (endSession ts ss))"
  by (auto simp: endSession_def completeActiveAgents_def completeAgent_def settled_def)

lemma set_update_subset: "set (AList.update k v es) \<subseteq> insert (k, v) (set es)"
  by (induction es) auto

lemma set_delete_subset: "set (AList.delete k es) \<subseteq> set es"
  by (auto simp: AList.delete_eq)

lemma settled_sessionAgents:
  "\<forall>(k, s) \<in> set (sessions st). settled x (agents s) \<Longrightarrow> settled x (sessionAgents st k)"
proof (cases "map_of (sessions st) k")
  case None
  then show ?thesis by (simp add: sessionAgents_def settled_def)
next
  case (Some s)
  assume all: "\<forall>(k, s) \<in> set (sessions st). settled x (agents s)"
  from Some have "(k, s) \<in> set (sessions st)" by (rule map_of_SomeD)
  with all have "settled x (agents s)" by blast
  with Some show ?thesis by (simp add: sessionAgents_def)
qed

lemma settled_putSession:
  assumes "\<forall>(k, s) \<in> set es. settled x (agents s)" and "settled x (agents ss)"
  shows "\<forall>(k', s) \<in> set (AList.update k ss es). settled x (agents s)"
  using assms set_update_subset [of k ss es] by blast

lemma settled_prepared:
  assumes "\<forall>(k, s) \<in> set (sessions st). settled x (agents s)"
  shows "settled x (agents (reactivateIfEnded (getOrCreateSession k ts src st) ts))"
  by (rule settled_reactivate)
     (simp add: agents_getOrCreateSession settled_sessionAgents [OF assms])

lemma completed_case_pre:
  assumes "case_pre v e st = (out, st')" and "completedSubagent x st"
  shows "completedSubagent x st'"
proof -
  from assms(2) have x: "x < agentIdCounter st"
    and all: "\<forall>(k, s) \<in> set (sessions st). settled x (agents s)"
    by (simp_all add: completedSubagent_def)
  from assms(1) obtain ss1 ss2 c2 u2 m ss4 c4 ss5 where
    ss1: "ss1 = reactivateIfEnded
       (getOrCreateSession (sessionIdOr ''unknown'' e) (timestamp e) (detectSource e) st)
       (timestamp e)" and
    main: "getOrCreateMainAgent v ss1 (agentIdCounter st) (usedNames st) = (ss2, c2, u2, m)" and
    spawn: "spawnOnTask v e m (captureModel (model e) ss2) c2 = (ss4, c4)" and
    rec: "recordToolStart v e ss4 = (out, ss5)" and
    st': "st' = putSession (sessionIdOr ''unknown'' e) ss5 (st\<lparr>agentIdCounter := c4, usedNames := u2\<rparr>)"
    by (rule case_pre_stages)
  have s1: "settled x (agents ss1)" unfolding ss1 by (rule settled_prepared [OF all])
  from settled_main [OF main s1 x] have s2: "settled x (agents ss2)"
    and c2: "agentIdCounter st \<le> c2" by simp_all
  from s2 have s3: "settled x (agents (captureModel (model e) ss2))"
    by (simp add: settled_captureModel)
  from x c2 have "x < c2" by simp
  from settled_spawnOnTask [OF spawn s3 this] have s4: "settled x (agents ss4)"
    and c4: "c2 \<le> c4" by simp_all
  from s4 have s5: "settled x (agents ss5)" by (simp add: settled_recordToolStart [OF rec])
  from settled_putSession [OF all s5] x c2 c4 show ?thesis
    by (simp add: st' completedSubagent_def putSession_def)
qed

lemma completed_case_post:
  assumes "case_post v e st = (out, st')" and "completedSubagent x st"
  shows "completedSubagent x st'"
proof -
  from assms(2) have x: "x < agentIdCounter st"
    and all: "\<forall>(k, s) \<in> set (sessions st). settled x (agents s)"
    by (simp_all add: completedSubagent_def)
  from assms(1) obtain ss2 where
    r: "recordToolEnd v e (reactivateIfEnded
       (getOrCreateSession (sessionIdOr ''unknown'' e) (timestamp e) (detectSource e) st)
       (timestamp e)) = (out, ss2)"
    and st': "st' = putSession (sessionIdOr ''unknown'' e) ss2 st" by (rule case_post_stages)
  from settled_recordToolEnd [OF r settled_prepared [OF all]]
  have "settled x (agents ss2)" .
  from settled_putSession [OF all this] x show ?thesis
    by (simp add: st' completedSubagent_def putSession_def)
qed

lemma completed_case_notification:
  assumes "case_notification v e st = (out, st')" and "completedSubagent x st"
  shows "completedSubagent x st'"
proof -
  from assms(2) have x: "x < agentIdCounter st"
    and all: "\<forall>(k, s) \<in> set (sessions st). settled x (agents s)"
    by (simp_all add: completedSubagent_def)
  from assms(1) obtain ss2 where
    r: "recordResponse v e (reactivateIfEnded
       (getOrCreateSession (sessionIdOr ''unknown'' e) (timestamp e) (detectSource e) st)
       (timestamp e)) = (out, ss2)"
    and st': "st' = putSession (sessionIdOr ''unknown'' e) ss2 st"
    by (rule case_notification_stages)
  from settled_recordResponse [OF r settled_prepared [OF all]]
  have "settled x (agents ss2)" .
  from settled_putSession [OF all this] x show ?thesis
    by (simp add: st' completedSubagent_def putSession_def)
qed

lemma completed_case_session_end:
  assumes "case_session_end v e st = (out, st')" and "completedSubagent x st"
  shows "completedSubagent x st'"
proof (cases "getSession (sessionIdOr ''unknown'' e) st")
  case None
  with assms show ?thesis by (simp add: case_session_end_def)
next
  case (Some ss)
  from assms(2) have x: "x < agentIdCounter st"
    and all: "\<forall>(k, s) \<in> set (sessions st). settled x (agents s)"
    by (simp_all add: completedSubagent_def)
  from Some all have "settled x (agents ss)"
    by (auto simp: getSession_def dest!: map_of_SomeD)
  then have "settled x (agents (endSession (timestamp e) ss))" by (rule settled_endSession)
  moreover from Some assms(1)
  have st': "st' = putSession (sessionIdOr ''unknown'' e) (endSession (timestamp e) ss) st"
    by (simp add: case_session_end_def)
  ultimately show ?thesis
    using settled_putSession [OF all, of "endSession (timestamp e) ss" "sessionIdOr ''unknown'' e"] x
    by (simp add: completedSubagent_def putSession_def)
qed

lemma completed_case_session_start:
  assumes "case_session_start v e st = (out, st')" and "completedSubagent x st"
  shows "completedSubagent x st'"
proof -
  let ?k = "sessionIdOr ''unknown'' e"
  from assms(2) have x: "x < agentIdCounter st"
    and all: "\<forall>(k, s) \<in> set (sessions st). settled x (agents s)"
    by (simp_all add: completedSubagent_def)
  from assms(1) obtain ss' c u m where main: "getOrCreateMainAgent v
       (getOrCreateSession ?k (timestamp e) (detectSource e) (resetExisting ?k st))
       (agentIdCounter st) (usedNames st) = (ss', c, u, m)"
    and st': "st' = putSession ?k ss' ((resetExisting ?k st)\<lparr>agentIdCounter := c, usedNames := u\<rparr>)"
    by (rule case_session_start_stages)
  have sub: "set (sessions (resetExisting ?k st)) \<subseteq> set (sessions st)"
    using set_delete_subset [of ?k "sessions st"]
    by (auto simp: resetExisting_def split: option.splits)
  with all have all1: "\<forall>(k, s) \<in> set (sessions (resetExisting ?k st)). settled x (agents s)"
    by blast
  have "settled x (agents (getOrCreateSession ?k (timestamp e) (detectSource e) (resetExisting ?k st)))"
    by (simp add: agents_getOrCreateSession settled_sessionAgents [OF all1])
  from settled_main [OF main this x] have s: "settled x (agents ss')"
    and c: "agentIdCounter st \<le> c" by simp_all
  from settled_putSession [OF all1 s] x c show ?thesis
    by (simp add: st' completedSubagent_def putSession_def)
qed

lemma completed_processEvent:
  assumes "completedSubagent x st"
  shows "completedSubagent x (snd (processEvent v e st))"
proof -
  obtain out st' where p: "processEvent v e st = (out, st')" by (metis surj_pair)
  consider (start) "phase e = ''session_start''"
    | (ended) "phase e = ''session_end''"
    | (pre) "phase e = ''pre''"
    | (post) "phase e = ''post''"
    | (notification) "phase e = ''notification''"
    | (other) "phase e \<noteq> ''session_start''" "phase e \<noteq> ''session_end''" "phase e \<noteq> ''pre''"
        "phase e \<noteq> ''post''" "phase e \<noteq> ''notification''"
    by blast
  then have "completedSubagent x st'"
  proof cases
    case start
    with p have "case_session_start v e st = (out, st')" by (simp add: processEvent_def)
    then show ?thesis using assms by (rule completed_case_session_start)
  next
    case ended
    with p have "case_session_end v e st = (out, st')" by (simp add: processEvent_def)
    then show ?thesis using assms by (rule completed_case_session_end)
  next
    case pre
    with p have "case_pre v e st = (out, st')" by (simp add: processEvent_def)
    then show ?thesis using assms by (rule completed_case_pre)
  next
    case post
    with p have "case_post v e st = (out, st')" by (simp add: processEvent_def)
    then show ?thesis using assms by (rule completed_case_post)
  next
    case notification
    with p have "case_notification v e st = (out, st')" by (simp add: processEvent_def)
    then show ?thesis using assms by (rule completed_case_notification)
  next
    case other
    with p assms show ?thesis by (simp add: processEvent_def)
  qed
  with p show ?thesis by simp
qed

lemma completed_pruneSession:
  assumes "completedSubagent x st" and "settled x (agents s)"
  shows "completedSubagent x (fst (pruneSession now stale (k, s) (st, ch)))"
proof -
  from assms(1) have x: "x < agentIdCounter st"
    and all: "\<forall>(k, s) \<in> set (sessions st). settled x (agents s)"
    by (simp_all add: completedSubagent_def)
  from all set_delete_subset [of k "sessions st"]
  have del: "\<forall>(k', s') \<in> set (AList.delete k (sessions st)). settled x (agents s')" by blast
  from settled_putSession [OF all settled_endSession [OF assms(2)]]
  have upd: "\<forall>(k', s') \<in> set (AList.update k (endSession (Some now) s) (sessions st)).
               settled x (agents s')" .
  from x all del upd show ?thesis
    by (simp add: pruneSession_def completedSubagent_def)
qed

lemma completed_pruneLoop:
  assumes "completedSubagent x st" and "\<forall>(k, s) \<in> set es. settled x (agents s)"
  shows "completedSubagent x (fst (fold (pruneSession now stale) es (st, ch)))"
  using assms
proof (induction es arbitrary: st ch)
  case Nil
  then show ?case by simp
next
  case (Cons e es)
  obtain k s where e: "e = (k, s)" by (cases e)
  obtain st1 ch1 where p: "pruneSession now stale (k, s) (st, ch) = (st1, ch1)"
    by (metis surj_pair)
  from Cons.prems e have "settled x (agents s)" by simp
  from completed_pruneSession [OF Cons.prems(1) this, of now stale k ch] p
  have "completedSubagent x st1" by simp
  moreover from Cons.prems(2) have "\<forall>(k, s) \<in> set es. settled x (agents s)" by simp
  ultimately have "completedSubagent x (fst (fold (pruneSession now stale) es (st1, ch1)))"
    by (rule Cons.IH)
  with e p show ?case by simp
qed

lemma completed_applyStep:
  assumes "completedSubagent x st"
  shows "completedSubagent x (applyStep step st)"
proof (cases step)
  case (Event v e)
  with completed_processEvent [OF assms] show ?thesis by simp
next
  case (Sweep now stale)
  from assms have "\<forall>(k, s) \<in> set (sessions st). settled x (agents s)"
    by (simp add: completedSubagent_def)
  from completed_pruneLoop [OF assms this] Sweep show ?thesis
    by (simp add: pruneStaleAndEndedSessions_def)
qed

text \<open>
  Claim C10. Let the identifier \<open>x\<close> have been issued, and let every agent that bears it
  be a completed subagent. Then after any sequence of events and sweeps, events that
  throw included, every agent that bears \<open>x\<close> is still a completed subagent: no operation
  makes it active again, and the identifier is never issued a second time.
\<close>

theorem completed_subagent_stays:
  assumes "completedSubagent x st"
  shows "completedSubagent x (run steps st)"
  using assms unfolding run_def
proof (induction steps arbitrary: st)
  case Nil
  then show ?case by simp
next
  case (Cons step steps)
  from completed_applyStep [OF Cons.prems] have "completedSubagent x (applyStep step st)" .
  then show ?case using Cons.IH by simp
qed

theorem completed_subagent_stays_witness:
  "completedSubagent 1 demoFinished \<and>
   map agentCore (sessionAgents demoFinished ''s1'') =
     [(0, Main, AgentActive, None), (1, Subagent, AgentCompleted, Some 0)] \<and>
   completedSubagent 1 (run demoLater demoFinished) \<and>
   map agentCore (sessionAgents (run demoLater demoFinished) ''s1'') =
     [(0, Main, AgentActive, None), (1, Subagent, AgentCompleted, Some 0)]"
proof -
  have h: "completedSubagent 1 demoFinished" by code_simp
  have a: "map agentCore (sessionAgents demoFinished ''s1'') =
     [(0, Main, AgentActive, None), (1, Subagent, AgentCompleted, Some 0)]" by code_simp
  have b: "map agentCore (sessionAgents (run demoLater demoFinished) ''s1'') =
     [(0, Main, AgentActive, None), (1, Subagent, AgentCompleted, Some 0)]" by code_simp
  from completed_subagent_stays [OF h, of demoLater] h a b show ?thesis by simp
qed

subsection \<open>The session map stays well formed\<close>

lemma wfSessions_update:
  assumes "wfSessions st" and "s_id (session ss) = k"
  shows "wfSessions (st\<lparr>sessions := AList.update k ss (sessions st)\<rparr>)"
proof -
  from assms(1) have d: "distinct (map fst (sessions st))"
    and ids: "\<forall>(k, s) \<in> set (sessions st). s_id (session s) = k"
    by (simp_all add: wfSessions_def)
  from ids assms(2) set_update_subset [of k ss "sessions st"]
  have "\<forall>(k', s) \<in> set (AList.update k ss (sessions st)). s_id (session s) = k'" by blast
  with d show ?thesis by (simp add: wfSessions_def AList.distinct_update)
qed

lemma wfSessions_delete:
  assumes "wfSessions st"
  shows "wfSessions (st\<lparr>sessions := AList.delete k (sessions st)\<rparr>)"
proof -
  from assms have d: "distinct (map fst (sessions st))"
    and ids: "\<forall>(k, s) \<in> set (sessions st). s_id (session s) = k"
    by (simp_all add: wfSessions_def)
  from ids set_delete_subset [of k "sessions st"]
  have "\<forall>(k', s) \<in> set (AList.delete k (sessions st)). s_id (session s) = k'" by blast
  with d show ?thesis by (simp add: wfSessions_def AList.distinct_delete)
qed

lemma wfSessions_fields [simp]:
  "wfSessions (st\<lparr>agentIdCounter := c\<rparr>) = wfSessions st"
  "wfSessions (st\<lparr>usedNames := u\<rparr>) = wfSessions st"
  "wfSessions (st\<lparr>carryOverStats := cs\<rparr>) = wfSessions st"
  by (simp_all add: wfSessions_def)

lemma wfSessions_putSession:
  "wfSessions st \<Longrightarrow> s_id (session ss) = k \<Longrightarrow> wfSessions (putSession k ss st)"
  using wfSessions_update [of st ss k] by (simp add: putSession_def)

lemma id_prepared:
  assumes "wfSessions st"
  shows "s_id (session (reactivateIfEnded (getOrCreateSession k ts src st) ts)) = k"
proof -
  have "s_id (session (getOrCreateSession k ts src st)) = k"
  proof (cases "map_of (sessions st) k")
    case None
    then show ?thesis by (simp add: getOrCreateSession_def createSessionState_def Let_def)
  next
    case (Some s)
    then have "(k, s) \<in> set (sessions st)" by (rule map_of_SomeD)
    with assms have "s_id (session s) = k" by (auto simp: wfSessions_def)
    with Some show ?thesis by (simp add: getOrCreateSession_def Let_def)
  qed
  then show ?thesis by (simp add: reactivateIfEnded_def)
qed

lemma session_finishToolEnd [simp]: "session (finishToolEnd v e i out ss) = session ss"
  by (simp add: finishToolEnd_def Let_def addTimelineEvent_def)

lemma session_recordToolEnd:
  "recordToolEnd v e ss = (out, ss') \<Longrightarrow> session ss' = session ss"
  by (auto simp: recordToolEnd_def Let_def split: option.splits)

lemma session_recordResponse:
  "recordResponse v e ss = (out, ss') \<Longrightarrow> session ss' = session ss"
  by (auto simp: recordResponse_def Let_def addTimelineEvent_def split: option.splits)

lemma s_id_captureModel [simp]: "s_id (session (captureModel m ss)) = s_id (session ss)"
  by (simp add: captureModel_def split: option.splits)

lemma wfSessions_processEvent:
  assumes "wfSessions st"
  shows "wfSessions (snd (processEvent v e st))"
proof -
  let ?k = "sessionIdOr ''unknown'' e"
  obtain out st' where p: "processEvent v e st = (out, st')" by (metis surj_pair)
  consider (start) "phase e = ''session_start''"
    | (ended) "phase e = ''session_end''"
    | (pre) "phase e = ''pre''"
    | (post) "phase e = ''post''"
    | (notification) "phase e = ''notification''"
    | (other) "phase e \<noteq> ''session_start''" "phase e \<noteq> ''session_end''" "phase e \<noteq> ''pre''"
        "phase e \<noteq> ''post''" "phase e \<noteq> ''notification''"
    by blast
  then have "wfSessions st'"
  proof cases
    case start
    with p have "case_session_start v e st = (out, st')" by (simp add: processEvent_def)
    then obtain ss' c u m where main: "getOrCreateMainAgent v
         (getOrCreateSession ?k (timestamp e) (detectSource e) (resetExisting ?k st))
         (agentIdCounter st) (usedNames st) = (ss', c, u, m)"
      and st': "st' = putSession ?k ss' ((resetExisting ?k st)\<lparr>agentIdCounter := c, usedNames := u\<rparr>)"
      by (rule case_session_start_stages)
    have wf1: "wfSessions (resetExisting ?k st)"
      using assms wfSessions_delete [OF assms, of ?k]
      by (auto simp: resetExisting_def wfSessions_def split: option.splits)
    have "s_id (session (getOrCreateSession ?k (timestamp e) (detectSource e)
             (resetExisting ?k st))) = ?k"
      by (simp add: getOrCreateSession_def createSessionState_def Let_def map_of_resetExisting)
    with main_found [OF main] have "s_id (session ss') = ?k" by simp
    with wf1 show ?thesis unfolding st' by (intro wfSessions_putSession) simp_all
  next
    case ended
    with p have c: "case_session_end v e st = (out, st')" by (simp add: processEvent_def)
    show ?thesis
    proof (cases "getSession ?k st")
      case None
      with c assms show ?thesis by (simp add: case_session_end_def)
    next
      case (Some ss)
      then have "(?k, ss) \<in> set (sessions st)" by (auto simp: getSession_def dest: map_of_SomeD)
      with assms have "s_id (session (endSession (timestamp e) ss)) = ?k"
        by (auto simp: wfSessions_def)
      from wfSessions_putSession [OF assms this] Some c show ?thesis
        by (simp add: case_session_end_def)
    qed
  next
    case pre
    with p have "case_pre v e st = (out, st')" by (simp add: processEvent_def)
    then obtain ss1 ss2 c2 u2 m ss4 c4 ss5 where
      ss1: "ss1 = reactivateIfEnded
         (getOrCreateSession ?k (timestamp e) (detectSource e) st) (timestamp e)" and
      main: "getOrCreateMainAgent v ss1 (agentIdCounter st) (usedNames st) = (ss2, c2, u2, m)" and
      spawn: "spawnOnTask v e m (captureModel (model e) ss2) c2 = (ss4, c4)" and
      rec: "recordToolStart v e ss4 = (out, ss5)" and
      st': "st' = putSession ?k ss5 (st\<lparr>agentIdCounter := c4, usedNames := u2\<rparr>)"
      by (rule case_pre_stages)
    have "s_id (session ss5) = ?k"
      using recordToolStart_core [OF rec] spawnOnTask_core [OF spawn] main_found [OF main]
        id_prepared [OF assms, of ?k "timestamp e" "detectSource e"]
      by (simp add: ss1)
    with assms show ?thesis unfolding st' by (intro wfSessions_putSession) simp_all
  next
    case post
    with p have "case_post v e st = (out, st')" by (simp add: processEvent_def)
    then obtain ss2 where
      r: "recordToolEnd v e (reactivateIfEnded
         (getOrCreateSession ?k (timestamp e) (detectSource e) st) (timestamp e)) = (out, ss2)"
      and st': "st' = putSession ?k ss2 st" by (rule case_post_stages)
    from session_recordToolEnd [OF r] id_prepared [OF assms, of ?k "timestamp e" "detectSource e"]
    have "s_id (session ss2) = ?k" by simp
    with assms show ?thesis unfolding st' by (rule wfSessions_putSession)
  next
    case notification
    with p have "case_notification v e st = (out, st')" by (simp add: processEvent_def)
    then obtain ss2 where
      r: "recordResponse v e (reactivateIfEnded
         (getOrCreateSession ?k (timestamp e) (detectSource e) st) (timestamp e)) = (out, ss2)"
      and st': "st' = putSession ?k ss2 st" by (rule case_notification_stages)
    from session_recordResponse [OF r] id_prepared [OF assms, of ?k "timestamp e" "detectSource e"]
    have "s_id (session ss2) = ?k" by simp
    with assms show ?thesis unfolding st' by (rule wfSessions_putSession)
  next
    case other
    with p assms show ?thesis by (simp add: processEvent_def)
  qed
  with p show ?thesis by simp
qed

lemma wfSessions_sweep:
  assumes "wfSessions st"
  shows "wfSessions (fst (pruneStaleAndEndedSessions now stale st))"
proof -
  from assms have d: "distinct (map fst (sessions st))"
    and ids: "\<forall>(k, s) \<in> set (sessions st). s_id (session s) = k"
    by (simp_all add: wfSessions_def)
  let ?end = "\<lambda>(k, s). if isStale now stale s then (k, endSession (Some now) s) else (k, s)"
  let ?keep = "\<lambda>(k, s). \<not> isExpired now s \<and> \<not> isGhost now s"
  have f: "map fst (map ?end es) = map fst es" for es
    by (induction es) auto
  from d have "distinct (map fst (filter ?keep (sessions st)))"
    by (rule distinct_map_filter)
  then have d': "distinct (map fst (map ?end (filter ?keep (sessions st))))"
    by (simp only: f)
  from ids have "\<forall>(k, s) \<in> set (map ?end (filter ?keep (sessions st))). s_id (session s) = k"
    by (auto split: if_splits)
  with d' show ?thesis
    by (simp add: prune_state [OF d] wfSessions_def)
qed

lemma wfSessions_initial: "wfSessions initialState"
  by (simp add: wfSessions_def initialState_def)

text \<open>Every state that the worker reaches from its initial state is well formed.\<close>

lemma wfSessions_run: "wfSessions st \<Longrightarrow> wfSessions (run steps st)"
  unfolding run_def
proof (induction steps arbitrary: st)
  case Nil
  then show ?case by simp
next
  case (Cons step steps)
  have "wfSessions (applyStep step st)"
    using Cons.prems by (cases step) (simp_all add: wfSessions_processEvent wfSessions_sweep)
  then show ?case using Cons.IH by simp
qed

subsection \<open>Steps that leave a session alone\<close>

text \<open>An event changes no session but its own.\<close>

lemma processEvent_frame:
  assumes "processEvent v e st = (out, st')" and "k \<noteq> sessionIdOr ''unknown'' e"
  shows "map_of (sessions st') k = map_of (sessions st) k"
proof -
  consider (start) "phase e = ''session_start''" | (ended) "phase e = ''session_end''"
    | (pre) "phase e = ''pre''" | (post) "phase e = ''post''"
    | (notification) "phase e = ''notification''"
    | (other) "phase e \<noteq> ''session_start''" "phase e \<noteq> ''session_end''" "phase e \<noteq> ''pre''"
        "phase e \<noteq> ''post''" "phase e \<noteq> ''notification''" by blast
  then show ?thesis
  proof cases
    case start
    with assms(1) have "case_session_start v e st = (out, st')" by (simp add: processEvent_def)
    then obtain ss' c u m where
      "st' = putSession (sessionIdOr ''unknown'' e) ss'
             ((resetExisting (sessionIdOr ''unknown'' e) st)\<lparr>agentIdCounter := c, usedNames := u\<rparr>)"
      by (rule case_session_start_stages)
    with assms(2) show ?thesis by (simp add: map_of_putSession map_of_resetExisting)
  next
    case ended
    with assms show ?thesis
      by (auto simp: processEvent_def case_session_end_def Let_def getSession_def map_of_putSession
          split: option.splits)
  next
    case pre
    with assms(1) have "case_pre v e st = (out, st')" by (simp add: processEvent_def)
    then obtain ss1 ss2 c2 u2 m ss4 c4 ss5 where
      "st' = putSession (sessionIdOr ''unknown'' e) ss5 (st\<lparr>agentIdCounter := c4, usedNames := u2\<rparr>)"
      by (rule case_pre_stages)
    with assms(2) show ?thesis by (simp add: map_of_putSession)
  next
    case post
    with assms(1) have "case_post v e st = (out, st')" by (simp add: processEvent_def)
    then obtain ss2 where "st' = putSession (sessionIdOr ''unknown'' e) ss2 st"
      by (rule case_post_stages)
    with assms(2) show ?thesis by (simp add: map_of_putSession)
  next
    case notification
    with assms(1) have "case_notification v e st = (out, st')" by (simp add: processEvent_def)
    then obtain ss2 where "st' = putSession (sessionIdOr ''unknown'' e) ss2 st"
      by (rule case_notification_stages)
    with assms(2) show ?thesis by (simp add: map_of_putSession)
  next
    case other
    with assms(1) show ?thesis by (simp add: processEvent_def)
  qed
qed



subsection \<open>The round trip with steps in between\<close>

lemma status_reactivate [simp]: "s_status (session (reactivateIfEnded ss ts)) = SessionActive"
  by (cases "s_status (session ss)") (simp_all add: reactivateIfEnded_def)

lemma status_captureModel [simp]:
  "s_status (session (captureModel m ss)) = s_status (session ss)"
  by (simp add: captureModel_def split: option.splits)







text \<open>
  A defect of the worker beside this, on the path that the hypotheses above leave out: on
  the response \<^verbatim>\<open>{"content": [null]}\<close> the function \<^verbatim>\<open>summarizeOutput\<close> throws (line 407),
  after the completion timestamp is written (line 315) and before the status is (line
  318). The record stays executing, with a completion timestamp and without its pending
  marker, and a later \<^verbatim>\<open>post\<close> does not complete it.
\<close>

lemma post_throw_keeps_executing:
  "outcomes [Event (demoEnv 7 ''cccc'') (postEv (Some 3) ''Read'' nullContent),
             Event (demoEnv 8 ''dddd'') (postEv (Some 4) ''Read'' (JStr ''ok''))] demoReading =
     [Threw, Returned] \<and>
   map tc_status (sessionCalls demoReading ''s1'') = [Executing] \<and>
   map tc_status (sessionCalls
     (run [Event (demoEnv 7 ''cccc'') (postEv (Some 3) ''Read'' nullContent)] demoReading) ''s1'') =
     [Executing] \<and>
   map tc_completedAt (sessionCalls
     (run [Event (demoEnv 7 ''cccc'') (postEv (Some 3) ''Read'' nullContent)] demoReading) ''s1'') =
     [Some 3] \<and>
   map tc_status (sessionCalls
     (run [Event (demoEnv 7 ''cccc'') (postEv (Some 3) ''Read'' nullContent),
           Event (demoEnv 8 ''dddd'') (postEv (Some 4) ''Read'' (JStr ''ok''))] demoReading) ''s1'') =
     [Executing]"
  by code_simp

subsection \<open>The timestamps that an event leaves\<close>

lemma prepared_times:
  "lastActivity (reactivateIfEnded (getOrCreateSession k ts src st) ts) = ts \<and>
   (case map_of (sessions st) k of
      None \<Rightarrow>
        s_startedAt (session (reactivateIfEnded (getOrCreateSession k ts src st) ts)) = ts \<and>
        statsStartedAt (reactivateIfEnded (getOrCreateSession k ts src st) ts) = ts
    | Some old \<Rightarrow>
        s_startedAt (session (reactivateIfEnded (getOrCreateSession k ts src st) ts)) =
          s_startedAt (session old) \<and>
        statsStartedAt (reactivateIfEnded (getOrCreateSession k ts src st) ts) =
          statsStartedAt old)"
  by (simp add: reactivate_core getOrCreateSession_def createSessionState_def Let_def
      split: option.splits)

lemma frame_finishToolEnd:
  "lastActivity (finishToolEnd v e i out ss) = lastActivity ss \<and>
   statsStartedAt (finishToolEnd v e i out ss) = statsStartedAt ss"
  by (simp add: finishToolEnd_def Let_def addTimelineEvent_def)

lemma frame_recordToolEnd:
  "recordToolEnd v e ss = (out, ss') \<Longrightarrow>
   session ss' = session ss \<and> lastActivity ss' = lastActivity ss \<and>
   statsStartedAt ss' = statsStartedAt ss"
  by (auto simp: recordToolEnd_def Let_def frame_finishToolEnd split: option.splits)

lemma frame_recordResponse:
  "recordResponse v e ss = (out, ss') \<Longrightarrow>
   session ss' = session ss \<and> lastActivity ss' = lastActivity ss \<and>
   statsStartedAt ss' = statsStartedAt ss"
  by (auto simp: recordResponse_def Let_def addTimelineEvent_def split: option.splits)

text \<open>What \<^verbatim>\<open>pre\<close>, \<^verbatim>\<open>post\<close> and \<^verbatim>\<open>notification\<close> leave in the time fields of their session.\<close>

lemma activity_times:
  assumes "processEvent v e st = (out, st')"
    and "phase e = ''pre'' \<or> phase e = ''post'' \<or> phase e = ''notification''"
  shows "\<exists>ss. map_of (sessions st') (sessionIdOr ''unknown'' e) = Some ss \<and>
           lastActivity ss = timestamp e \<and>
           (case map_of (sessions st) (sessionIdOr ''unknown'' e) of
              None \<Rightarrow> s_startedAt (session ss) = timestamp e \<and> statsStartedAt ss = timestamp e
            | Some old \<Rightarrow> s_startedAt (session ss) = s_startedAt (session old) \<and>
                statsStartedAt ss = statsStartedAt old)"
proof -
  let ?k = "sessionIdOr ''unknown'' e"
  let ?ss1 = "reactivateIfEnded (getOrCreateSession ?k (timestamp e) (detectSource e) st)
                (timestamp e)"
  have goal: "\<exists>ss. map_of (sessions st') ?k = Some ss \<and>
           lastActivity ss = timestamp e \<and>
           (case map_of (sessions st) ?k of
              None \<Rightarrow> s_startedAt (session ss) = timestamp e \<and> statsStartedAt ss = timestamp e
            | Some old \<Rightarrow> s_startedAt (session ss) = s_startedAt (session old) \<and>
                statsStartedAt ss = statsStartedAt old)"
    if look: "map_of (sessions st') ?k = Some ss"
      and same: "lastActivity ss = lastActivity ?ss1"
        "s_startedAt (session ss) = s_startedAt (session ?ss1)"
        "statsStartedAt ss = statsStartedAt ?ss1" for ss
    using look same prepared_times [of ?k "timestamp e" "detectSource e" st]
    by (intro exI [of _ ss]) (simp split: option.splits)
  from assms(2) consider (pre) "phase e = ''pre''" | (post) "phase e = ''post''"
    | (notification) "phase e = ''notification''" by blast
  then show ?thesis
  proof cases
    case pre
    with assms(1) have "case_pre v e st = (out, st')" by (simp add: processEvent_def)
    then obtain ss1 ss2 c2 u2 m ss4 c4 ss5 where
      ss1: "ss1 = ?ss1" and
      main: "getOrCreateMainAgent v ss1 (agentIdCounter st) (usedNames st) = (ss2, c2, u2, m)" and
      spawn: "spawnOnTask v e m (captureModel (model e) ss2) c2 = (ss4, c4)" and
      rec: "recordToolStart v e ss4 = (out, ss5)" and
      st': "st' = putSession ?k ss5 (st\<lparr>agentIdCounter := c4, usedNames := u2\<rparr>)"
      by (rule case_pre_stages)
    have "lastActivity ss5 = lastActivity ?ss1 \<and>
          s_startedAt (session ss5) = s_startedAt (session ?ss1) \<and>
          statsStartedAt ss5 = statsStartedAt ?ss1"
      using recordToolStart_core [OF rec] spawnOnTask_core [OF spawn]
        captureModel_core [of "model e" ss2] main_found [OF main] by (simp add: ss1)
    moreover have "map_of (sessions st') ?k = Some ss5" by (simp add: st' map_of_putSession)
    ultimately show ?thesis by (intro goal [of ss5]) simp_all
  next
    case post
    with assms(1) have "case_post v e st = (out, st')" by (simp add: processEvent_def)
    then obtain ss2 where r: "recordToolEnd v e ?ss1 = (out, ss2)"
      and st': "st' = putSession ?k ss2 st" by (rule case_post_stages)
    from frame_recordToolEnd [OF r] st' show ?thesis
      by (intro goal [of ss2]) (simp_all add: map_of_putSession)
  next
    case notification
    with assms(1) have "case_notification v e st = (out, st')" by (simp add: processEvent_def)
    then obtain ss2 where r: "recordResponse v e ?ss1 = (out, ss2)"
      and st': "st' = putSession ?k ss2 st" by (rule case_notification_stages)
    from frame_recordResponse [OF r] st' show ?thesis
      by (intro goal [of ss2]) (simp_all add: map_of_putSession)
  qed
qed

lemma recordToolStart_calls:
  assumes "recordToolStart v e ss = (out, ss')" and "agents ss \<noteq> []"
  shows "(allCalls (agents ss') = allCalls (agents ss) \<and> out = Threw) \<or>
         (\<exists>summary. mset (allCalls (agents ss')) =
            mset (allCalls (agents ss)) + {#newToolCall v e summary#})"
proof -
  from assms(2) obtain i where i: "findActiveAgent (agents ss) = Some i"
    by (cases "findActiveAgent (agents ss)") (auto simp: findActiveAgent_None)
  then have less: "i < length (agents ss)" by (rule findActiveAgent_less)
  show ?thesis
  proof (cases "summarizeInput (builtins v) (tool_name e) (tool_input e)")
    case None
    with i assms(1) show ?thesis by (simp add: recordToolStart_def)
  next
    case (Some summary)
    with i assms(1) have "agents ss' = (agents ss)[i := pushToolCall (newToolCall v e summary) (agents ss ! i)]"
      by (auto simp: recordToolStart_def Let_def split: option.splits
          dest!: agents_trackFileAccess)
    with mset_allCalls_update [OF less, of "newToolCall v e summary"] show ?thesis by auto
  qed
qed

lemma case_pre_calls:
  assumes "case_pre v e st = (out, st')"
  shows "(sessionCalls st' (sessionIdOr ''unknown'' e) = sessionCalls st (sessionIdOr ''unknown'' e)
            \<and> out = Threw) \<or>
         (\<exists>summary. mset (sessionCalls st' (sessionIdOr ''unknown'' e)) =
            mset (sessionCalls st (sessionIdOr ''unknown'' e)) + {#newToolCall v e summary#})"
proof -
  let ?k = "sessionIdOr ''unknown'' e"
  from assms obtain ss1 ss2 c2 u2 m ss4 c4 ss5 where
    ss1: "ss1 = reactivateIfEnded (getOrCreateSession ?k (timestamp e) (detectSource e) st)
            (timestamp e)" and
    main: "getOrCreateMainAgent v ss1 (agentIdCounter st) (usedNames st) = (ss2, c2, u2, m)" and
    spawn: "spawnOnTask v e m (captureModel (model e) ss2) c2 = (ss4, c4)" and
    rec: "recordToolStart v e ss4 = (out, ss5)" and
    st': "st' = putSession ?k ss5 (st\<lparr>agentIdCounter := c4, usedNames := u2\<rparr>)"
    by (rule case_pre_stages)
  have calls4: "allCalls (agents ss4) = sessionCalls st ?k"
    using toolCalls_spawnOnTask [OF spawn]
      allCalls_cong [OF toolCalls_captureModel [of "model e" ss2]]
      toolCalls_main [OF main] calls_prepared [of ?k "timestamp e" "detectSource e" st]
    by (simp add: ss1)
  have ne: "agents ss4 \<noteq> []"
    using agents_spawnOnTask_nonempty [OF spawn] agents_main_nonempty [OF main]
    by (simp add: agents_captureModel_nonempty)
  have "sessionCalls st' ?k = allCalls (agents ss5)"
    by (simp add: st' sessionCalls_def sessionAgents_def map_of_putSession)
  with recordToolStart_calls [OF rec ne] calls4 show ?thesis by simp
qed


lemma starts_modifyToolCall:
  assumes "\<And>tc. tc_startedAt (f tc) = tc_startedAt tc"
  shows "map tc_startedAt (allCalls (modifyToolCall pid f as)) = map tc_startedAt (allCalls as)"
  using assms
  by (induction as) (auto simp: allCalls_def map_modifyFirst split: option.splits)

lemma recordToolEnd_starts:
  assumes "recordToolEnd v e ss = (out, ss')"
  shows "map tc_startedAt (allCalls (agents ss')) = map tc_startedAt (allCalls (agents ss))"
proof -
  have fin: "allCalls (agents (finishToolEnd v e i out' s)) = allCalls (agents s)" for i out' s
    by (rule allCalls_cong) (rule toolCalls_finishToolEnd)
  from assms show ?thesis
    by (auto simp: recordToolEnd_def Let_def fin starts_modifyToolCall finishToolCall_def
        split: option.splits)
qed

lemma toolCalls_update_response:
  "map toolCalls (as[i := (as ! i)\<lparr>lastResponse := r\<rparr>]) = map toolCalls as"
proof (cases "i < length as")
  case True
  then show ?thesis by (intro nth_equalityI) (auto simp: nth_list_update)
next
  case False
  then show ?thesis by (simp add: list_update_beyond)
qed

lemma recordResponse_calls:
  assumes "recordResponse v e ss = (out, ss')"
  shows "allCalls (agents ss') = allCalls (agents ss)"
  using assms
  by (auto simp: recordResponse_def Let_def toolCalls_update_response
      intro!: allCalls_cong split: option.splits)

lemma endSession_calls: "allCalls (agents (endSession ts ss)) = allCalls (agents ss)"
  by (rule allCalls_cong)
    (simp add: endSession_def completeActiveAgents_def completeAgent_def)

lemma endSession_times: "sessionTimes (endSession ts ss) = sessionTimes ss"
  by (simp add: endSession_def sessionTimes_def)

text \<open>The start timestamps of the tool calls under the events that record no call.\<close>

lemma processEvent_starts:
  assumes "processEvent v e st = (out, st')"
    and "phase e \<noteq> ''session_start''" and "phase e \<noteq> ''pre''"
  shows "map tc_startedAt (sessionCalls st' (sessionIdOr ''unknown'' e)) =
         map tc_startedAt (sessionCalls st (sessionIdOr ''unknown'' e))"
proof -
  let ?k = "sessionIdOr ''unknown'' e"
  let ?ss1 = "reactivateIfEnded (getOrCreateSession ?k (timestamp e) (detectSource e) st)
                (timestamp e)"
  consider (ended) "phase e = ''session_end''"
    | (post) "phase e = ''post''" | (notification) "phase e = ''notification''"
    | (other) "phase e \<noteq> ''session_end''" "phase e \<noteq> ''post''" "phase e \<noteq> ''notification''"
    by blast
  then show ?thesis
  proof cases
    case ended
    with assms show ?thesis
      by (auto simp: processEvent_def case_session_end_def Let_def getSession_def map_of_putSession
          sessionCalls_def sessionAgents_def endSession_calls split: option.splits)
  next
    case post
    with assms have "case_post v e st = (out, st')" by (simp add: processEvent_def)
    then obtain ss2 where r: "recordToolEnd v e ?ss1 = (out, ss2)"
      and st': "st' = putSession ?k ss2 st" by (rule case_post_stages)
    have "sessionCalls st' ?k = allCalls (agents ss2)"
      by (simp add: st' sessionCalls_def sessionAgents_def map_of_putSession)
    with recordToolEnd_starts [OF r] show ?thesis by (simp add: calls_prepared)
  next
    case notification
    with assms have "case_notification v e st = (out, st')" by (simp add: processEvent_def)
    then obtain ss2 where r: "recordResponse v e ?ss1 = (out, ss2)"
      and st': "st' = putSession ?k ss2 st" by (rule case_notification_stages)
    have "sessionCalls st' ?k = allCalls (agents ss2)"
      by (simp add: st' sessionCalls_def sessionAgents_def map_of_putSession)
    with recordResponse_calls [OF r] show ?thesis by (simp add: calls_prepared)
  next
    case other
    with assms show ?thesis by (simp add: processEvent_def)
  qed
qed

text \<open>\<^verbatim>\<open>session_end\<close> and an unknown phase leave the timestamps of the session.\<close>

lemma processEvent_idle_times:
  assumes "processEvent v e st = (out, st')"
    and "phase e \<noteq> ''session_start''" and "phase e \<noteq> ''pre''"
    and "phase e \<noteq> ''post''" and "phase e \<noteq> ''notification''"
  shows "map_option sessionTimes (map_of (sessions st') (sessionIdOr ''unknown'' e)) =
         map_option sessionTimes (map_of (sessions st) (sessionIdOr ''unknown'' e))"
  using assms
  by (auto simp: processEvent_def case_session_end_def Let_def getSession_def map_of_putSession
      endSession_times split: option.splits if_splits)

text \<open>
  Claim C8, as the code has it. \<open>processEvent\<close> copies the field \<^verbatim>\<open>timestamp\<close> of the event
  as it is received, also when it is absent, in every phase and whether or not the call
  throws. After \<^verbatim>\<open>session_start\<close> the three timestamps of the session are the timestamp
  of the event. After \<^verbatim>\<open>pre\<close>, \<^verbatim>\<open>post\<close> or \<^verbatim>\<open>notification\<close> the last activity is the
  timestamp of the event, and the two start timestamps are that timestamp for a session
  that the event created and are unchanged for a session that it found. A \<^verbatim>\<open>pre\<close> event
  adds one tool call, which starts at the timestamp of the event, or it throws and adds
  none. The other phases but \<^verbatim>\<open>session_start\<close> change no start timestamp of a tool call;
  \<^verbatim>\<open>session_end\<close> and an unknown phase change no timestamp of the session. No event
  changes another session. No clock of the worker enters these fields.
\<close>

theorem timestamp_copied:
  assumes "processEvent v e st = (out, st')"
  shows "(phase e = ''session_start'' \<longrightarrow>
            (\<exists>ss. map_of (sessions st') (sessionIdOr ''unknown'' e) = Some ss \<and>
                  sessionTimes ss = (timestamp e, timestamp e, timestamp e))) \<and>
         (phase e = ''pre'' \<or> phase e = ''post'' \<or> phase e = ''notification'' \<longrightarrow>
            (\<exists>ss. map_of (sessions st') (sessionIdOr ''unknown'' e) = Some ss \<and>
                  lastActivity ss = timestamp e \<and>
                  (case map_of (sessions st) (sessionIdOr ''unknown'' e) of
                     None \<Rightarrow> s_startedAt (session ss) = timestamp e \<and>
                       statsStartedAt ss = timestamp e
                   | Some old \<Rightarrow> s_startedAt (session ss) = s_startedAt (session old) \<and>
                       statsStartedAt ss = statsStartedAt old))) \<and>
         (phase e = ''pre'' \<longrightarrow>
            (out = Threw \<and>
             sessionCalls st' (sessionIdOr ''unknown'' e) =
               sessionCalls st (sessionIdOr ''unknown'' e)) \<or>
            (\<exists>tc. mset (sessionCalls st' (sessionIdOr ''unknown'' e)) =
                    mset (sessionCalls st (sessionIdOr ''unknown'' e)) + {#tc#} \<and>
                  tc_id tc = (now_tc v, rnd_tc v) \<and> tc_startedAt tc = timestamp e)) \<and>
         (phase e \<noteq> ''session_start'' \<and> phase e \<noteq> ''pre'' \<longrightarrow>
            map tc_startedAt (sessionCalls st' (sessionIdOr ''unknown'' e)) =
            map tc_startedAt (sessionCalls st (sessionIdOr ''unknown'' e))) \<and>
         (phase e \<noteq> ''session_start'' \<and> phase e \<noteq> ''pre'' \<and> phase e \<noteq> ''post'' \<and>
          phase e \<noteq> ''notification'' \<longrightarrow>
            map_option sessionTimes (map_of (sessions st') (sessionIdOr ''unknown'' e)) =
            map_option sessionTimes (map_of (sessions st) (sessionIdOr ''unknown'' e))) \<and>
         (\<forall>k. k \<noteq> sessionIdOr ''unknown'' e \<longrightarrow>
            map_of (sessions st') k = map_of (sessions st) k)"
proof -
  let ?k = "sessionIdOr ''unknown'' e"
  have a: "\<exists>ss. map_of (sessions st') ?k = Some ss \<and>
             sessionTimes ss = (timestamp e, timestamp e, timestamp e)"
    if "phase e = ''session_start''"
  proof -
    from that assms have "case_session_start v e st = (out, st')" by (simp add: processEvent_def)
    from case_session_start_times [OF this] show ?thesis by (simp add: sessionTimes_def)
  qed
  have c: "(out = Threw \<and> sessionCalls st' ?k = sessionCalls st ?k) \<or>
           (\<exists>tc. mset (sessionCalls st' ?k) = mset (sessionCalls st ?k) + {#tc#} \<and>
                 tc_id tc = (now_tc v, rnd_tc v) \<and> tc_startedAt tc = timestamp e)"
    if "phase e = ''pre''"
  proof -
    from that assms have "case_pre v e st = (out, st')" by (simp add: processEvent_def)
    from case_pre_calls [OF this] show ?thesis
    proof
      assume "sessionCalls st' ?k = sessionCalls st ?k \<and> out = Threw"
      then show ?thesis by simp
    next
      assume "\<exists>summary. mset (sessionCalls st' ?k) =
                mset (sessionCalls st ?k) + {#newToolCall v e summary#}"
      then obtain summary where "mset (sessionCalls st' ?k) =
                mset (sessionCalls st ?k) + {#newToolCall v e summary#}" ..
      then have "mset (sessionCalls st' ?k) =
                   mset (sessionCalls st ?k) + {#newToolCall v e summary#} \<and>
                 tc_id (newToolCall v e summary) = (now_tc v, rnd_tc v) \<and>
                 tc_startedAt (newToolCall v e summary) = timestamp e"
        by (simp add: newToolCall_def)
      then show ?thesis by blast
    qed
  qed
  from a activity_times [OF assms] c processEvent_starts [OF assms]
    processEvent_idle_times [OF assms] processEvent_frame [OF assms]
  show ?thesis by blast
qed

text \<open>A \<^verbatim>\<open>pre\<close> event without timestamp: the timestamps of the session and of the call are absent.\<close>

theorem timestamp_counterexample:
  "map_option lastActivity
     (getSession ''s1'' (run [Event (demoEnv 1000 ''aaaa'') (preEv None ''Read'' readInput)]
        initialState)) = Some None \<and>
   map_option (s_startedAt \<circ> session)
     (getSession ''s1'' (run [Event (demoEnv 1000 ''aaaa'') (preEv None ''Read'' readInput)]
        initialState)) = Some None \<and>
   map tc_startedAt
     (sessionCalls (run [Event (demoEnv 1000 ''aaaa'') (preEv None ''Read'' readInput)]
        initialState) ''s1'') = [None]"
  by code_simp

theorem timestamp_copied_witness:
  "(\<exists>ss. map_of (sessions (run [Event (demoEnv 5 ''aaaa'') startEv] initialState)) ''s1'' = Some ss \<and>
         sessionTimes ss = (Some 1, Some 1, Some 1)) \<and>
   (\<exists>ss. map_of (sessions (run [Event (demoEnv 1000 ''aaaa'') (preEv None ''Read'' readInput)]
                 initialState)) ''s1'' = Some ss \<and>
         lastActivity ss = None \<and> s_startedAt (session ss) = None \<and> statsStartedAt ss = None) \<and>
   (\<exists>tc. mset (sessionCalls (run [Event (demoEnv 1000 ''aaaa'') (preEv None ''Read'' readInput)]
                 initialState) ''s1'') = mset (sessionCalls initialState ''s1'') + {#tc#} \<and>
         tc_id tc = (1000, ''aaaa'') \<and> tc_startedAt tc = None) \<and>
   fst (processEvent (demoEnv 7 ''cccc'') (postEv None ''Read'' nullContent) demoReading) = Threw \<and>
   (\<exists>ss. map_of (sessions (run [Event (demoEnv 7 ''cccc'') (postEv None ''Read'' nullContent)]
                 demoReading)) ''s1'' = Some ss \<and>
         lastActivity ss = None \<and> s_startedAt (session ss) = Some 1 \<and>
         statsStartedAt ss = Some 1) \<and>
   map tc_startedAt (sessionCalls (run [Event (demoEnv 7 ''cccc'')
       (postEv None ''Read'' nullContent)] demoReading) ''s1'') =
     map tc_startedAt (sessionCalls demoReading ''s1'') \<and>
   map_option sessionTimes (map_of (sessions (run [Event (demoEnv 8 ''dddd'') endEv] demoReading))
       ''s1'') = map_option sessionTimes (map_of (sessions demoReading) ''s1'') \<and>
   map_of (sessions (run [Event (demoEnv 8 ''dddd'') endEv] demoReading)) ''oc-7'' =
     map_of (sessions demoReading) ''oc-7''"
proof -
  let ?pre = "preEv None ''Read'' readInput"
  let ?post = "postEv None ''Read'' nullContent"
  have ev: "phase startEv = ''session_start''" "phase ?pre = ''pre''" "phase ?post = ''post''"
    "phase endEv = ''session_end''"
    "sessionIdOr ''unknown'' startEv = ''s1''" "sessionIdOr ''unknown'' ?pre = ''s1''"
    "sessionIdOr ''unknown'' ?post = ''s1''" "sessionIdOr ''unknown'' endEv = ''s1''"
    "timestamp startEv = Some 1" "timestamp ?pre = None" "timestamp ?post = None"
    by (simp_all add: preEv_def postEv_def startEv_def endEv_def demoEvent_def sessionIdOr_def)
  have v: "(now_tc (demoEnv 1000 ''aaaa''), rnd_tc (demoEnv 1000 ''aaaa'')) = (1000, ''aaaa'')"
    by (simp add: demoEnv_def)
  have none: "map_of (sessions initialState) ''s1'' = None" by (simp add: initialState_def)
  have old: "map_of (sessions demoReading) ''s1'' = Some (snd (hd (sessions demoReading)))"
    "s_startedAt (session (snd (hd (sessions demoReading)))) = Some 1"
    "statsStartedAt (snd (hd (sessions demoReading))) = Some 1"
    by code_simp+
  have r1: "processEvent (demoEnv 5 ''aaaa'') startEv initialState =
      (fst (processEvent (demoEnv 5 ''aaaa'') startEv initialState),
       run [Event (demoEnv 5 ''aaaa'') startEv] initialState)"
    and r2: "processEvent (demoEnv 1000 ''aaaa'') ?pre initialState =
      (fst (processEvent (demoEnv 1000 ''aaaa'') ?pre initialState),
       run [Event (demoEnv 1000 ''aaaa'') ?pre] initialState)"
    and r3: "processEvent (demoEnv 7 ''cccc'') ?post demoReading =
      (fst (processEvent (demoEnv 7 ''cccc'') ?post demoReading),
       run [Event (demoEnv 7 ''cccc'') ?post] demoReading)"
    and r4: "processEvent (demoEnv 8 ''dddd'') endEv demoReading =
      (fst (processEvent (demoEnv 8 ''dddd'') endEv demoReading),
       run [Event (demoEnv 8 ''dddd'') endEv] demoReading)"
    by (simp_all add: run_def)
  have ret: "fst (processEvent (demoEnv 1000 ''aaaa'') ?pre initialState) = Returned"
    by code_simp
  have thr: "fst (processEvent (demoEnv 7 ''cccc'') ?post demoReading) = Threw"
    by code_simp
  have p1: "\<exists>ss. map_of (sessions (run [Event (demoEnv 5 ''aaaa'') startEv] initialState)) ''s1''
              = Some ss \<and> sessionTimes ss = (Some 1, Some 1, Some 1)"
    using timestamp_copied [OF r1] by (simp add: ev)
  have p2: "\<exists>ss. map_of (sessions (run [Event (demoEnv 1000 ''aaaa'') ?pre] initialState)) ''s1''
              = Some ss \<and> lastActivity ss = None \<and> s_startedAt (session ss) = None \<and>
              statsStartedAt ss = None"
    using timestamp_copied [OF r2] by (simp add: ev none)
  have p3: "\<exists>tc. mset (sessionCalls (run [Event (demoEnv 1000 ''aaaa'') ?pre] initialState) ''s1'')
              = mset (sessionCalls initialState ''s1'') + {#tc#} \<and>
              tc_id tc = (1000, ''aaaa'') \<and> tc_startedAt tc = None"
    using timestamp_copied [OF r2] by (simp add: ev ret v)
  have p4: "\<exists>ss. map_of (sessions (run [Event (demoEnv 7 ''cccc'') ?post] demoReading)) ''s1''
              = Some ss \<and> lastActivity ss = None \<and> s_startedAt (session ss) = Some 1 \<and>
              statsStartedAt ss = Some 1"
    using timestamp_copied [OF r3] by (simp add: ev old)
  have p5: "map tc_startedAt (sessionCalls (run [Event (demoEnv 7 ''cccc'') ?post] demoReading)
              ''s1'') = map tc_startedAt (sessionCalls demoReading ''s1'')"
    using timestamp_copied [OF r3] by (simp add: ev)
  have p6: "map_option sessionTimes (map_of (sessions (run [Event (demoEnv 8 ''dddd'') endEv]
              demoReading)) ''s1'') = map_option sessionTimes (map_of (sessions demoReading) ''s1'')"
    using timestamp_copied [OF r4] by (simp add: ev)
  have p7: "map_of (sessions (run [Event (demoEnv 8 ''dddd'') endEv] demoReading)) ''oc-7'' =
              map_of (sessions demoReading) ''oc-7''"
    using timestamp_copied [OF r4] by (simp add: ev)
  from p1 p2 p3 thr p4 p5 p6 p7 show ?thesis by blast
qed
end
